theory Spec2Isabelle
  imports Main "HOL-Library.Monad_Syntax"
begin

section \<open>Data model of the webhooks service\<close>

text \<open>
  A registered hook as \<^verbatim>\<open>makeRequests\<close> reads it: the destructuring
  \<^verbatim>\<open>const {hookURL,_id,name} = hook\<close>. The field \<^verbatim>\<open>_id\<close> is written \<open>hook_id\<close>.
  Documents of the store may carry further fields; the record scheme \<open>'a hook_scheme\<close>
  covers them.
\<close>

record hook =
  hook_id :: string
  name :: string
  hookURL :: string

text \<open>
  The object \<^verbatim>\<open>{success:flag,hookURL,_id,name}\<close> that one delivery attempt produces.
  It extends a hook, and the retry rounds pass such objects to \<^verbatim>\<open>makeRequests\<close> again.
\<close>

record response = hook +
  success :: bool

text \<open>The object \<^verbatim>\<open>{success,failed}\<close> returned by \<^verbatim>\<open>groupResponses\<close>.\<close>

record grouped =
  grp_success :: "response list"
  grp_failed :: "response list"

text \<open>The service settings \<^verbatim>\<open>BATCH_SIZE\<close> and \<^verbatim>\<open>RETRY_COUNT\<close>.\<close>

record settings =
  BATCH_SIZE :: int
  RETRY_COUNT :: int

definition default_settings :: settings where
  "default_settings = \<lparr>BATCH_SIZE = 10, RETRY_COUNT = 3\<rparr>"

text \<open>
  What \<^verbatim>\<open>axios.post\<close> settles to: the promise resolves with a response carrying a
  status, or it rejects (a status outside the accepted range, or no response at all).
\<close>

datatype axios_error = StatusError int | TransportError

datatype axios_result = Resolved int | Rejected axios_error

text \<open>
  The network is a parameter. One trigger issues its requests at fixed places: the round
  (0 for the first pass, \<open>i\<close> for the retry with loop index \<open>i\<close>), the index of the
  chunk in that round and the index of the hook in its chunk. The answer of the network
  may depend on the place, on the URL and on the posted data.
\<close>

type_synonym 'p post = "nat \<Rightarrow> string \<Rightarrow> 'p \<Rightarrow> axios_result"
type_synonym 'p net = "nat \<Rightarrow> nat \<Rightarrow> 'p post"

text \<open>The trigger report: a JavaScript object, keys to arrays of responses.\<close>

type_synonym report = "string \<rightharpoonup> response list"

section \<open>The chunker\<close>

text \<open>
  \<^verbatim>\<open>Array.prototype.slice(start, end)\<close> on integer arguments: a negative index counts
  from the end of the array, both indices are clamped to the array.
\<close>

definition js_slice :: "'a list \<Rightarrow> int \<Rightarrow> int \<Rightarrow> 'a list" where
  "js_slice arr start end' =
     (let len = int (length arr);
          k = (if start < 0 then max (len + start) 0 else min start len);
          final = (if end' < 0 then max (len + end') 0 else min end' len)
      in take (nat (final - k)) (drop (nat k) arr))"

text \<open>
  The loop \<^verbatim>\<open>while (i < n) chunks.push(webHooksArray.slice(i, i += chunkSize))\<close>.
  Nothing in the source bounds the number of iterations, so the loop is a partial
  function: \<open>None\<close> stands for a loop that never leaves.
\<close>

partial_function (option) chunk_while ::
  "'a list \<Rightarrow> int \<Rightarrow> int \<Rightarrow> 'a list list \<Rightarrow> 'a list list option" where
  "chunk_while webHooksArray chunkSize i chunks =
     (if i < int (length webHooksArray)
      then chunk_while webHooksArray chunkSize (i + chunkSize)
             (chunks @ [js_slice webHooksArray i (i + chunkSize)])
      else Some chunks)"

declare chunk_while.simps [code]

definition chunkWebHooks :: "'a list \<Rightarrow> int \<Rightarrow> 'a list list option" where
  "chunkWebHooks webHooksArray chunkSize = chunk_while webHooksArray chunkSize 0 []"

section \<open>Classifying responses\<close>

text \<open>
  \<^verbatim>\<open>groupResponses\<close>: the \<^verbatim>\<open>forEach\<close> pushes each response to the end of
  \<^verbatim>\<open>success\<close> or of \<^verbatim>\<open>failed\<close>.
\<close>

definition groupResponses :: "response list \<Rightarrow> grouped" where
  "groupResponses responseArray =
     fold (\<lambda>response g.
             if success response
             then g\<lparr>grp_success := grp_success g @ [response]\<rparr>
             else g\<lparr>grp_failed := grp_failed g @ [response]\<rparr>)
          responseArray \<lparr>grp_success = [], grp_failed = []\<rparr>"

section \<open>Delivery attempts\<close>

text \<open>
  The callback that \<^verbatim>\<open>makeRequests\<close> maps over the hooks: it posts to the hook's URL;
  \<^verbatim>\<open>.then\<close> sets the flag exactly when the status is 200, \<^verbatim>\<open>.catch\<close> turns every
  rejection into a response with \<^verbatim>\<open>success:false\<close>. The hook is the \<open>j\<close>-th of its batch.
\<close>

definition request :: "'p post \<Rightarrow> nat \<Rightarrow> 'a hook_scheme \<Rightarrow> 'p \<Rightarrow> response" where
  "request post j hook postData =
     (let hookURL' = hookURL hook; id' = hook_id hook; name' = name hook
      in case post j (hookURL hook) postData of
           Resolved status \<Rightarrow>
             (let flag = (if status = 200 then True else False)
              in \<lparr>hook_id = id', name = name', hookURL = hookURL', success = flag\<rparr>)
         | Rejected err \<Rightarrow>
             \<lparr>hook_id = id', name = name', hookURL = hookURL', success = False\<rparr>)"

text \<open>
  \<^verbatim>\<open>makeRequests\<close>: \<^verbatim>\<open>Promise.all\<close> keeps the responses in the order of the hooks;
  no promise of the batch rejects, so the result is always the grouping.
\<close>

definition makeRequests :: "'p post \<Rightarrow> 'a hook_scheme list \<Rightarrow> 'p \<Rightarrow> grouped" where
  "makeRequests post webHooksArray postData =
     (let responses = map (\<lambda>(j, hook). request post j hook postData) (enumerate 0 webHooksArray)
      in groupResponses responses)"

section \<open>The retry coordinator\<close>

text \<open>The decimal numeral that the template literal \<^verbatim>\<open>`retrySuccess${i}`\<close> prints.\<close>

definition digit_char :: "nat \<Rightarrow> char" where
  "digit_char d = char_of (48 + d)"

fun string_of_nat :: "nat \<Rightarrow> string" where
  "string_of_nat n =
     (if n < 10 then [digit_char n] else string_of_nat (n div 10) @ [digit_char (n mod 10)])"

declare string_of_nat.simps [simp del]

definition retryKey :: "nat \<Rightarrow> string" where
  "retryKey i = ''retrySuccess'' @ string_of_nat i"

text \<open>
  The first pass of \<^verbatim>\<open>initateProcessing\<close>: chunk all hooks, one \<^verbatim>\<open>makeRequests\<close> per
  chunk, then the \<^verbatim>\<open>forEach\<close> that appends every batch's \<^verbatim>\<open>failed\<close> to
  \<^verbatim>\<open>failedRequests\<close> and its \<^verbatim>\<open>success\<close> to \<^verbatim>\<open>successRequests\<close>.
  The result is the pair \<open>(failedRequests, successRequests)\<close>.
\<close>

definition first_pass ::
  "'p net \<Rightarrow> settings \<Rightarrow> 'a hook_scheme list \<Rightarrow> 'p \<Rightarrow> (response list \<times> response list) option" where
  "first_pass net s webHooks postData =
     (case chunkWebHooks webHooks (BATCH_SIZE s) of
        None \<Rightarrow> None
      | Some chunks \<Rightarrow>
          (let batchResponse =
                 map (\<lambda>(c, subset). makeRequests (net 0 c) subset postData) (enumerate 0 chunks)
           in Some (fold (\<lambda>batch (failedRequests, successRequests).
                            (failedRequests @ grp_failed batch, successRequests @ grp_success batch))
                         batchResponse ([], []))))"

text \<open>
  The body of the loop \<^verbatim>\<open>for(let i=1;i<RETRY_COUNT;i++)\<close> on the state
  \<open>(failedRequests, trigger_Report)\<close>: the failures are chunked again,
  \<^verbatim>\<open>failedRequests\<close> is emptied, and for every batch the \<^verbatim>\<open>forEach\<close> appends its
  failures and assigns its successes to the key \<^verbatim>\<open>retrySuccess${i}\<close>.
\<close>

definition retry_round ::
  "'p net \<Rightarrow> settings \<Rightarrow> 'p \<Rightarrow> nat \<Rightarrow> response list \<times> report \<Rightarrow> (response list \<times> report) option" where
  "retry_round net s postData i st =
     (case st of (failedRequests, trigger_Report) \<Rightarrow>
        (case chunkWebHooks failedRequests (BATCH_SIZE s) of
           None \<Rightarrow> None
         | Some failedChunks \<Rightarrow>
             (let retryResponses =
                    map (\<lambda>(c, subset). makeRequests (net i c) subset postData)
                        (enumerate 0 failedChunks)
              in Some (fold (\<lambda>batch (failedRequests, trigger_Report).
                               (failedRequests @ grp_failed batch,
                                trigger_Report(retryKey i \<mapsto> grp_success batch)))
                            retryResponses ([], trigger_Report)))))"

function retry_loop ::
  "'p net \<Rightarrow> settings \<Rightarrow> 'p \<Rightarrow> nat \<Rightarrow> response list \<times> report \<Rightarrow> (response list \<times> report) option" where
  "retry_loop net s postData i st =
     (if int i < RETRY_COUNT s
      then (case retry_round net s postData i st of
              None \<Rightarrow> None
            | Some st' \<Rightarrow> retry_loop net s postData (Suc i) st')
      else Some st)"
  by pat_completeness auto
termination
  by (relation "measure (\<lambda>(net, s, postData, i, st). nat (RETRY_COUNT s) - i)") auto

declare retry_loop.simps [simp del]

definition initateProcessing ::
  "'p net \<Rightarrow> settings \<Rightarrow> 'a hook_scheme list \<Rightarrow> 'p \<Rightarrow> report option" where
  "initateProcessing net s webHooks postData =
     (case first_pass net s webHooks postData of
        None \<Rightarrow> None
      | Some (failedRequests, successRequests) \<Rightarrow>
          (let trigger_Report = [''successRequests'' \<mapsto> successRequests]
           in case retry_loop net s postData 1 (failedRequests, trigger_Report) of
                None \<Rightarrow> None
              | Some (failedRequests, trigger_Report) \<Rightarrow>
                  Some (trigger_Report(''failed'' \<mapsto> failedRequests))))"

text \<open>
  The handler of the action \<^verbatim>\<open>trigger\<close>: \<^verbatim>\<open>this.adapter.find({})\<close> gives the hooks
  or throws, and the handler rethrows what it catches; otherwise it returns the report.
\<close>

datatype error = FindFailed string

datatype outcome = is_Thrown: Thrown error | is_Returned: Returned report

definition trigger ::
  "'p net \<Rightarrow> settings \<Rightarrow> error + 'a hook_scheme list \<Rightarrow> 'p \<Rightarrow> outcome option" where
  "trigger net s found postData =
     (case found of
        Inl error \<Rightarrow> Some (Thrown error)
      | Inr webHooks \<Rightarrow>
          (case initateProcessing net s webHooks postData of
             None \<Rightarrow> None
           | Some data \<Rightarrow> Some (Returned data)))"

section \<open>The rounds of one trigger\<close>

text \<open>
  The responses of one batch and of one round, in the order in which the requests are
  issued: one \<open>request\<close> per hook of each chunk, as \<^verbatim>\<open>makeRequests\<close> maps them.
\<close>

definition batch_responses :: "'p post \<Rightarrow> 'a hook_scheme list \<Rightarrow> 'p \<Rightarrow> response list" where
  "batch_responses post webHooksArray postData =
     map (\<lambda>(j, hook). request post j hook postData) (enumerate 0 webHooksArray)"

definition round_responses :: "'p net \<Rightarrow> nat \<Rightarrow> 'p \<Rightarrow> 'a hook_scheme list list \<Rightarrow> response list" where
  "round_responses net k postData chunks =
     concat (map (\<lambda>(c, subset). batch_responses (net k c) subset postData) (enumerate 0 chunks))"

text \<open>
  The state \<open>(failedRequests, trigger_Report)\<close> of \<^verbatim>\<open>initateProcessing\<close> after round
  \<open>k\<close>: after the first pass for \<open>k = 0\<close>, after the loop body with index \<open>k\<close>
  otherwise.
\<close>

definition start_state ::
  "'p net \<Rightarrow> settings \<Rightarrow> 'a hook_scheme list \<Rightarrow> 'p \<Rightarrow> (response list \<times> report) option" where
  "start_state net s webHooks postData =
     (case first_pass net s webHooks postData of
        None \<Rightarrow> None
      | Some (failedRequests, successRequests) \<Rightarrow>
          Some (failedRequests, [''successRequests'' \<mapsto> successRequests]))"

primrec state_after ::
  "'p net \<Rightarrow> settings \<Rightarrow> 'a hook_scheme list \<Rightarrow> 'p \<Rightarrow> nat \<Rightarrow> (response list \<times> report) option" where
  "state_after net s webHooks postData 0 = start_state net s webHooks postData"
| "state_after net s webHooks postData (Suc k) =
     (case state_after net s webHooks postData k of
        None \<Rightarrow> None
      | Some st \<Rightarrow> retry_round net s postData (Suc k) st)"

text \<open>
  The input of retry round \<open>j\<close> (for \<open>j \<ge> 1\<close>): the value of \<^verbatim>\<open>failedRequests\<close> when
  the loop body starts with \<open>i = j\<close>, that is, the failures of round \<open>j - 1\<close>.
\<close>

definition round_input ::
  "'p net \<Rightarrow> settings \<Rightarrow> 'a hook_scheme list \<Rightarrow> 'p \<Rightarrow> nat \<Rightarrow> response list option" where
  "round_input net s webHooks postData j =
     map_option fst (state_after net s webHooks postData (j - 1))"

text \<open>
  The attempts of retry round \<open>j\<close>: the responses to the requests that the loop body
  issues with \<open>i = j\<close>, one per hook of every chunk of its input.
\<close>

definition round_attempts ::
  "'p net \<Rightarrow> settings \<Rightarrow> 'a hook_scheme list \<Rightarrow> 'p \<Rightarrow> nat \<Rightarrow> response list option" where
  "round_attempts net s webHooks postData j =
     (case round_input net s webHooks postData j of
        None \<Rightarrow> None
      | Some failedRequests \<Rightarrow>
          (case chunkWebHooks failedRequests (BATCH_SIZE s) of
             None \<Rightarrow> None
           | Some failedChunks \<Rightarrow> Some (round_responses net j postData failedChunks)))"

text \<open>
  The attempts of the first pass, one per hook of every chunk of \<^verbatim>\<open>webHooks\<close>, and the
  attempts of round \<open>i\<close> for any \<open>i\<close>: the first pass for \<open>i = 0\<close>, the retry with
  loop index \<open>i\<close> otherwise.
\<close>

definition first_attempts ::
  "'p net \<Rightarrow> settings \<Rightarrow> 'a hook_scheme list \<Rightarrow> 'p \<Rightarrow> response list option" where
  "first_attempts net s webHooks postData =
     (case chunkWebHooks webHooks (BATCH_SIZE s) of
        None \<Rightarrow> None
      | Some chunks \<Rightarrow> Some (round_responses net 0 postData chunks))"

definition attempts_of_round ::
  "'p net \<Rightarrow> settings \<Rightarrow> 'a hook_scheme list \<Rightarrow> 'p \<Rightarrow> nat \<Rightarrow> response list option" where
  "attempts_of_round net s webHooks postData i =
     (if i = 0 then first_attempts net s webHooks postData
      else round_attempts net s webHooks postData i)"

text \<open>
  The bucket of the report that belongs to round \<open>i\<close>: \<^verbatim>\<open>successRequests\<close> for the
  first pass, \<^verbatim>\<open>retrySuccess${i}\<close> for a retry.
\<close>

definition success_bucket :: "report \<Rightarrow> nat \<Rightarrow> response list option" where
  "success_bucket trigger_Report i =
     (if i = 0 then trigger_Report ''successRequests'' else trigger_Report (retryKey i))"

section \<open>Sample data\<close>

text \<open>
  The hooks that \<^verbatim>\<open>seedDB\<close> inserts: \<^verbatim>\<open>name:`Server#${i}`\<close> and
  \<^verbatim>\<open>hookURL:`http://localhost:400${i}`\<close>. The store assigns the \<^verbatim>\<open>_id\<close>; here it is
  the numeral of \<open>i\<close>.
\<close>

definition seed_hook :: "nat \<Rightarrow> hook" where
  "seed_hook i = \<lparr>hook_id = string_of_nat i, name = ''Server#'' @ string_of_nat i,
                  hookURL = ''http://localhost:400'' @ string_of_nat i\<rparr>"

text \<open>
  Three networks: one that accepts every post, one that is down during the first pass
  and accepts every post afterwards, and one that rejects the posts to one URL.
\<close>

definition always_up :: "unit net" where
  "always_up = (\<lambda>k c j url postData. Resolved 200)"

definition down_then_up :: "unit net" where
  "down_then_up = (\<lambda>k c j url postData. if k = 0 then Rejected TransportError else Resolved 200)"

definition one_down :: "string \<Rightarrow> unit net" where
  "one_down u = (\<lambda>k c j url postData. if url = u then Rejected TransportError else Resolved 200)"

section \<open>Properties of the chunker\<close>

lemma js_slice_step:
  assumes "0 \<le> i" "i < int (length arr)" "1 \<le> sz"
  shows "js_slice arr i (i + sz) = take (nat sz) (drop (nat i) arr)"
proof -
  have "take (nat (min (i + sz) (int (length arr)) - i)) (drop (nat i) arr)
        = take (nat sz) (drop (nat i) arr)"
  proof (cases "i + sz \<le> int (length arr)")
    case True
    then show ?thesis by (simp add: min_def)
  next
    case False
    then have "length (drop (nat i) arr) \<le> nat (min (i + sz) (int (length arr)) - i)"
      and "length (drop (nat i) arr) \<le> nat sz"
      using assms by (auto simp: min_def)
    then show ?thesis by simp
  qed
  then show ?thesis using assms by (simp add: js_slice_def Let_def min_def)
qed

lemma chunk_while_pos:
  assumes "1 \<le> sz" "0 \<le> i"
  shows "\<exists>rest. chunk_while arr sz i chunks = Some (chunks @ rest)
           \<and> concat rest = drop (nat i) arr
           \<and> (\<forall>c \<in> set (butlast rest). length c = nat sz)
           \<and> (rest \<noteq> [] \<longrightarrow> 1 \<le> length (last rest) \<and> length (last rest) \<le> nat sz)
           \<and> (rest = [] \<longleftrightarrow> int (length arr) \<le> i)"
  using assms
proof (induction "length arr - nat i" arbitrary: i chunks rule: less_induct)
  case less
  show ?case
  proof (cases "i < int (length arr)")
    case False
    then have "chunk_while arr sz i chunks = Some (chunks @ [])"
      by (subst chunk_while.simps) simp
    moreover have "drop (nat i) arr = []" using False less.prems by simp
    ultimately show ?thesis using False by auto
  next
    case True
    let ?c = "take (nat sz) (drop (nat i) arr)"
    have sl: "js_slice arr i (i + sz) = ?c"
      using js_slice_step less.prems True by blast
    have "length arr - nat (i + sz) < length arr - nat i"
      using True less.prems by linarith
    from less.hyps[OF this, of "chunks @ [?c]"] less.prems
    obtain rest where r: "chunk_while arr sz (i + sz) (chunks @ [?c]) = Some ((chunks @ [?c]) @ rest)"
      "concat rest = drop (nat (i + sz)) arr"
      "\<forall>c \<in> set (butlast rest). length c = nat sz"
      "rest \<noteq> [] \<longrightarrow> 1 \<le> length (last rest) \<and> length (last rest) \<le> nat sz"
      "rest = [] \<longleftrightarrow> int (length arr) \<le> i + sz"
      by auto
    have 1: "chunk_while arr sz i chunks = Some (chunks @ (?c # rest))"
      using True r(1) sl by (subst chunk_while.simps) simp
    have "nat (i + sz) = nat sz + nat i" using less.prems by linarith
    then have 2: "concat (?c # rest) = drop (nat i) arr"
      using r(2) by (simp add: drop_drop[symmetric] del: drop_drop)
    have len: "length ?c = min (nat sz) (length arr - nat i)" by simp
    have 3: "\<forall>c \<in> set (butlast (?c # rest)). length c = nat sz"
    proof (cases "rest = []")
      case True then show ?thesis by simp
    next
      case False
      then have "i + sz < int (length arr)" using r(5) by simp
      then have "length ?c = nat sz" using less.prems by simp
      then show ?thesis using r(3) False by auto
    qed
    have 4: "1 \<le> length (last (?c # rest)) \<and> length (last (?c # rest)) \<le> nat sz"
    proof (cases "rest = []")
      case True
      have "1 \<le> nat sz" "1 \<le> length arr - nat i" using less.prems \<open>i < int (length arr)\<close> by linarith+
      then show ?thesis using True len by simp
    next
      case False then show ?thesis using r(4) by simp
    qed
    have 5: "(?c # rest = []) = (int (length arr) \<le> i)" using True by simp
    show ?thesis
      apply (rule exI[of _ "?c # rest"])
      apply (rule conjI, rule 1)
      apply (rule conjI, rule 2)
      apply (rule conjI, rule 3)
      apply (rule conjI)
      using 4 apply blast
      apply (rule 5)
      done
  qed
qed

lemma chunkWebHooks_Nil: "chunkWebHooks [] sz = Some []"
  unfolding chunkWebHooks_def by (subst chunk_while.simps) simp

lemma chunkWebHooks_pos:
  assumes "1 \<le> sz"
  shows "\<exists>chunks. chunkWebHooks arr sz = Some chunks
           \<and> concat chunks = arr
           \<and> (\<forall>c \<in> set (butlast chunks). length c = nat sz)
           \<and> (chunks \<noteq> [] \<longrightarrow> 1 \<le> length (last chunks) \<and> length (last chunks) \<le> nat sz)
           \<and> (chunks = [] \<longleftrightarrow> arr = [])"
  using chunk_while_pos[OF assms, of 0 arr "[]"] by (simp add: chunkWebHooks_def)

lemma chunk_while_stuck:
  assumes "chunk_while arr sz i chunks = Some y"
  shows "\<not> (sz \<le> 0 \<and> i < int (length arr))"
proof (rule chunk_while.raw_induct
    [where P = "\<lambda>arr sz i chunks y. \<not> (sz \<le> 0 \<and> i < int (length arr))", OF _ assms])
  fix f :: "'a list \<Rightarrow> int \<Rightarrow> int \<Rightarrow> 'a list list \<Rightarrow> 'a list list option"
    and arr sz i chunks y
  assume IH: "\<And>arr sz i chunks y. f arr sz i chunks = Some y \<Longrightarrow> \<not> (sz \<le> 0 \<and> i < int (length arr))"
    and eq: "(if i < int (length arr)
              then f arr sz (i + sz) (chunks @ [js_slice arr i (i + sz)])
              else Some chunks) = Some y"
  show "\<not> (sz \<le> 0 \<and> i < int (length arr))"
  proof
    assume a: "sz \<le> 0 \<and> i < int (length arr)"
    then have "f arr sz (i + sz) (chunks @ [js_slice arr i (i + sz)]) = Some y"
      using eq by simp
    from IH[OF this] a show False by linarith
  qed
qed

lemma chunkWebHooks_nonpos:
  assumes "sz \<le> 0"
  shows "chunkWebHooks arr sz = (if arr = [] then Some [] else None)"
proof (cases "arr = []")
  case True then show ?thesis by (simp add: chunkWebHooks_Nil)
next
  case False
  have "chunk_while arr sz 0 [] = None"
  proof (cases "chunk_while arr sz 0 []")
    case (Some y)
    from chunk_while_stuck[OF this] assms False show ?thesis by simp
  qed simp
  then show ?thesis using False by (simp add: chunkWebHooks_def)
qed

text \<open>
  C6. For every sequence and every size of at least 1 the chunker returns, the groups
  concatenated in order are the input, every group but the last has exactly \<open>size\<close>
  elements and the last has between 1 and \<open>size\<close>; an empty sequence gives no group
  at all (for any size), never a single empty group.
\<close>

theorem chunkWebHooks_consecutive_groups:
  "(1 \<le> chunkSize \<longrightarrow>
      (\<exists>chunks. chunkWebHooks items chunkSize = Some chunks
         \<and> concat chunks = items
         \<and> (\<forall>c \<in> set (butlast chunks). int (length c) = chunkSize)
         \<and> (chunks \<noteq> [] \<longrightarrow> 1 \<le> length (last chunks) \<and> int (length (last chunks)) \<le> chunkSize)
         \<and> (items = [] \<longrightarrow> chunks = [])))
   \<and> chunkWebHooks ([] :: 'a list) chunkSize = Some []"
proof (intro conjI impI)
  assume sz: "1 \<le> chunkSize"
  from chunkWebHooks_pos[OF sz, of items] obtain chunks where c:
    "chunkWebHooks items chunkSize = Some chunks" "concat chunks = items"
    "\<forall>c \<in> set (butlast chunks). length c = nat chunkSize"
    "chunks \<noteq> [] \<longrightarrow> 1 \<le> length (last chunks) \<and> length (last chunks) \<le> nat chunkSize"
    "chunks = [] \<longleftrightarrow> items = []"
    by blast
  have "\<forall>c \<in> set (butlast chunks). int (length c) = chunkSize"
    using c(3) sz by auto
  moreover have "chunks \<noteq> [] \<longrightarrow> 1 \<le> length (last chunks) \<and> int (length (last chunks)) \<le> chunkSize"
    using c(4) sz by auto
  ultimately show "\<exists>chunks. chunkWebHooks items chunkSize = Some chunks
         \<and> concat chunks = items
         \<and> (\<forall>c \<in> set (butlast chunks). int (length c) = chunkSize)
         \<and> (chunks \<noteq> [] \<longrightarrow> 1 \<le> length (last chunks) \<and> int (length (last chunks)) \<le> chunkSize)
         \<and> (items = [] \<longrightarrow> chunks = [])"
    using c(1,2,5) by blast
next
  show "chunkWebHooks ([] :: 'a list) chunkSize = Some []" by (rule chunkWebHooks_Nil)
qed

theorem chunkWebHooks_consecutive_groups_witness:
  "(1::int) \<le> 2 \<and> chunkWebHooks [1, 2, 3, 4, 5 :: nat] 2 = Some [[1, 2], [3, 4], [5]]
   \<and> concat [[1, 2], [3, 4], [5 :: nat]] = [1, 2, 3, 4, 5]
   \<and> map length (butlast [[1, 2], [3, 4], [5 :: nat]]) = [2, 2]
   \<and> int (length (last [[1, 2], [3, 4], [5 :: nat]])) \<le> 2"
proof -
  have ev: "chunkWebHooks [1, 2, 3, 4, 5 :: nat] 2 = Some [[1, 2], [3, 4], [5]]"
    by code_simp
  from chunkWebHooks_consecutive_groups[of 2 "[1, 2, 3, 4, 5 :: nat]"]
  obtain chunks where "chunkWebHooks [1, 2, 3, 4, 5 :: nat] 2 = Some chunks"
    "concat chunks = [1, 2, 3, 4, 5]"
    "\<forall>c \<in> set (butlast chunks). int (length c) = 2"
    "chunks \<noteq> [] \<longrightarrow> 1 \<le> length (last chunks) \<and> int (length (last chunks)) \<le> 2"
    by auto
  then show ?thesis using ev by auto
qed

section \<open>Properties of a delivery attempt and of a batch\<close>

lemma fold_group:
  "fold (\<lambda>response g.
             if success response
             then g\<lparr>grp_success := grp_success g @ [response]\<rparr>
             else g\<lparr>grp_failed := grp_failed g @ [response]\<rparr>) rs g
   = \<lparr>grp_success = grp_success g @ filter success rs,
      grp_failed = grp_failed g @ filter (\<lambda>r. \<not> success r) rs\<rparr>"
  by (induction rs arbitrary: g) auto

lemma groupResponses_filter:
  "groupResponses rs = \<lparr>grp_success = filter success rs, grp_failed = filter (\<lambda>r. \<not> success r) rs\<rparr>"
  by (simp add: groupResponses_def fold_group)

lemma request_truncate: "hook.truncate (request post j h pd) = hook.truncate h"
  by (simp add: request_def hook.truncate_def Let_def split: axios_result.splits)

lemma request_success: "success (request post j h pd) = (post j (hookURL h) pd = Resolved 200)"
  by (simp add: request_def Let_def split: axios_result.splits)

text \<open>
  C4. A delivery attempt is a total function to responses: whatever the network does
  (any status, any rejection), the callback returns a response that carries the hook's
  \<^verbatim>\<open>_id\<close>, \<^verbatim>\<open>name\<close> and \<^verbatim>\<open>hookURL\<close>, and its flag is set exactly when the post
  resolved with status 200; every other status and every rejection gives
  \<^verbatim>\<open>success:false\<close>.
\<close>

theorem request_always_classifies:
  "hook_id (request post j hook postData) = hook_id hook
   \<and> name (request post j hook postData) = name hook
   \<and> hookURL (request post j hook postData) = hookURL hook
   \<and> success (request post j hook postData) = (post j (hookURL hook) postData = Resolved 200)"
  by (simp add: request_def Let_def split: axios_result.splits)

lemma seed_ids_distinct: "distinct (map hook_id [seed_hook 0, seed_hook 1])"
  by code_simp

text \<open>
  C5. For every batch, with \<open>outcomes\<close> the responses in the order of the hooks: the
  sizes of the two groups add up to the size of the input, each group is the input
  filtered by the flag (so the order inside each group is the input's), no response is
  in both groups, and no \<^verbatim>\<open>_id\<close> is in both when the ids of the input are distinct.
  The same holds for \<^verbatim>\<open>groupResponses\<close> on any sequence of responses.
\<close>

theorem makeRequests_stable_partition:
  "length (grp_success (groupResponses rs)) + length (grp_failed (groupResponses rs)) = length rs
   \<and> grp_success (groupResponses rs) = filter success rs
   \<and> grp_failed (groupResponses rs) = filter (\<lambda>r. \<not> success r) rs
   \<and> set (grp_success (groupResponses rs)) \<inter> set (grp_failed (groupResponses rs)) = {}
   \<and> (distinct (map hook_id rs) \<longrightarrow>
        hook_id ` set (grp_success (groupResponses rs)) \<inter> hook_id ` set (grp_failed (groupResponses rs)) = {})
   \<and> (let outcomes = map (\<lambda>(j, hook). request post j hook postData) (enumerate 0 webHooksArray);
           g = makeRequests post webHooksArray postData
       in map hook.truncate outcomes = map hook.truncate webHooksArray
          \<and> length (grp_success g) + length (grp_failed g) = length webHooksArray
          \<and> grp_success g = filter success outcomes
          \<and> grp_failed g = filter (\<lambda>r. \<not> success r) outcomes
          \<and> (distinct (map hook_id webHooksArray) \<longrightarrow>
                hook_id ` set (grp_success g) \<inter> hook_id ` set (grp_failed g) = {}))"
proof -
  have len: "length (filter success xs) + length (filter (\<lambda>r. \<not> success r) xs) = length xs"
    for xs :: "response list"
    by (induction xs) auto
  have ids: "hook_id ` set (filter success xs) \<inter> hook_id ` set (filter (\<lambda>r. \<not> success r) xs) = {}"
    if "distinct (map hook_id xs)" for xs :: "response list"
    using that by (induction xs) auto
  define outcomes where
    "outcomes = map (\<lambda>(j, hook). request post j hook postData) (enumerate 0 webHooksArray)"
  have tr: "map hook.truncate outcomes = map hook.truncate webHooksArray"
  proof -
    have "map hook.truncate outcomes = map (hook.truncate \<circ> snd) (enumerate 0 webHooksArray)"
      unfolding outcomes_def by (auto simp: request_truncate)
    also have "\<dots> = map hook.truncate (map snd (enumerate 0 webHooksArray))"
      by (simp only: map_map)
    also have "\<dots> = map hook.truncate webHooksArray"
      by (simp only: map_snd_enumerate)
    finally show ?thesis .
  qed
  have idmap: "map hook_id outcomes = map hook_id webHooksArray"
  proof -
    have "map hook_id outcomes = map (hook_id \<circ> hook.truncate) outcomes"
      by (simp add: hook.truncate_def)
    also have "\<dots> = map hook_id (map hook.truncate outcomes)" by simp
    also have "\<dots> = map hook_id (map hook.truncate webHooksArray)" by (simp only: tr)
    finally show ?thesis by (simp add: hook.truncate_def)
  qed
  have lo: "length outcomes = length webHooksArray"
    by (simp add: outcomes_def)
  have g: "makeRequests post webHooksArray postData = groupResponses outcomes"
    by (simp add: makeRequests_def outcomes_def)
  have A: "length (grp_success (groupResponses rs)) + length (grp_failed (groupResponses rs)) = length rs"
    by (simp add: groupResponses_filter len)
  have B: "set (grp_success (groupResponses rs)) \<inter> set (grp_failed (groupResponses rs)) = {}"
    by (auto simp: groupResponses_filter)
  have C: "distinct (map hook_id rs) \<longrightarrow>
        hook_id ` set (grp_success (groupResponses rs)) \<inter> hook_id ` set (grp_failed (groupResponses rs)) = {}"
    using ids[of rs] by (simp add: groupResponses_filter)
  have D: "length (grp_success (groupResponses outcomes)) + length (grp_failed (groupResponses outcomes))
             = length webHooksArray"
    by (simp add: groupResponses_filter len lo)
  have E: "distinct (map hook_id webHooksArray) \<longrightarrow>
        hook_id ` set (grp_success (groupResponses outcomes))
          \<inter> hook_id ` set (grp_failed (groupResponses outcomes)) = {}"
    using ids[of outcomes] by (simp add: groupResponses_filter idmap)
  show ?thesis
    unfolding Let_def g outcomes_def[symmetric]
    using A B C D E tr by (simp add: groupResponses_filter)
qed

theorem makeRequests_stable_partition_witness:
  "distinct (map hook_id [seed_hook 0, seed_hook 1])
   \<and> map hook_id (grp_success (makeRequests (one_down (hookURL (seed_hook 1)) 0 0) [seed_hook 0, seed_hook 1] ()))
       = [hook_id (seed_hook 0)]
   \<and> map hook_id (grp_failed (makeRequests (one_down (hookURL (seed_hook 1)) 0 0) [seed_hook 0, seed_hook 1] ()))
       = [hook_id (seed_hook 1)]
   \<and> hook_id ` set (grp_success (makeRequests (one_down (hookURL (seed_hook 1)) 0 0) [seed_hook 0, seed_hook 1] ()))
       \<inter> hook_id ` set (grp_failed (makeRequests (one_down (hookURL (seed_hook 1)) 0 0) [seed_hook 0, seed_hook 1] ()))
       = {}
   \<and> distinct (map hook_id (batch_responses (one_down (hookURL (seed_hook 0)) 0 0) [seed_hook 0, seed_hook 1] ()))
   \<and> hook_id ` set (grp_success (groupResponses (batch_responses (one_down (hookURL (seed_hook 0)) 0 0) [seed_hook 0, seed_hook 1] ())))
       \<inter> hook_id ` set (grp_failed (groupResponses (batch_responses (one_down (hookURL (seed_hook 0)) 0 0) [seed_hook 0, seed_hook 1] ())))
       = {}"
proof -
  let ?post = "one_down (hookURL (seed_hook 1)) 0 0"
  let ?hooks = "[seed_hook 0, seed_hook 1]"
  let ?rs = "batch_responses (one_down (hookURL (seed_hook 0)) 0 0) [seed_hook 0, seed_hook 1] ()"
  note inst = makeRequests_stable_partition[of ?rs ?post "()" ?hooks]
  have d1: "distinct (map hook_id ?hooks)" by (rule seed_ids_distinct)
  have d2: "distinct (map hook_id ?rs)" by code_simp
  have s: "map hook_id (grp_success (makeRequests ?post ?hooks ())) = [hook_id (seed_hook 0)]"
    by code_simp
  have f: "map hook_id (grp_failed (makeRequests ?post ?hooks ())) = [hook_id (seed_hook 1)]"
    by code_simp
  have i1: "hook_id ` set (grp_success (makeRequests ?post ?hooks ()))
       \<inter> hook_id ` set (grp_failed (makeRequests ?post ?hooks ())) = {}"
    using inst d1 unfolding Let_def by blast
  have i2: "hook_id ` set (grp_success (groupResponses ?rs)) \<inter> hook_id ` set (grp_failed (groupResponses ?rs)) = {}"
    using inst d2 by blast
  show ?thesis
    apply (intro conjI)
         apply (rule d1)
        apply (rule s)
       apply (rule f)
      apply (rule i1)
     apply (rule d2)
    apply (rule i2)
    done
qed

section \<open>The keys of the report\<close>

lemma digit_char_inj: "a < 10 \<Longrightarrow> b < 10 \<Longrightarrow> digit_char a = digit_char b \<Longrightarrow> a = b"
proof -
  assume a: "a < 10" and b: "b < 10" and eq: "digit_char a = digit_char b"
  have "of_char (digit_char a) = (48 + a) mod 256" "of_char (digit_char b) = (48 + b) mod 256"
    by (simp_all add: digit_char_def)
  with eq have "(48 + a) mod 256 = (48 + b) mod 256" by simp
  with a b show "a = b" by simp
qed

lemma string_of_nat_nonempty: "string_of_nat n \<noteq> []"
  by (subst string_of_nat.simps) simp

lemma string_of_nat_inj: "string_of_nat n = string_of_nat m \<Longrightarrow> n = m"
proof (induction n arbitrary: m rule: string_of_nat.induct)
  case (1 n)
  show ?case
  proof (cases "n < 10")
    case True
    then have n: "string_of_nat n = [digit_char n]" by (subst string_of_nat.simps) simp
    show ?thesis
    proof (cases "m < 10")
      case mt: True
      then have "string_of_nat m = [digit_char m]" by (subst string_of_nat.simps) simp
      with n "1.prems" have "digit_char n = digit_char m" by simp
      then show ?thesis using True mt digit_char_inj by blast
    next
      case False
      then have "string_of_nat m = string_of_nat (m div 10) @ [digit_char (m mod 10)]"
        by (subst string_of_nat.simps) simp
      with n "1.prems" have "string_of_nat (m div 10) = []" by simp
      then show ?thesis using string_of_nat_nonempty by blast
    qed
  next
    case False
    then have n: "string_of_nat n = string_of_nat (n div 10) @ [digit_char (n mod 10)]"
      by (subst string_of_nat.simps) simp
    show ?thesis
    proof (cases "m < 10")
      case True
      then have "string_of_nat m = [digit_char m]" by (subst string_of_nat.simps) simp
      with n "1.prems" have "string_of_nat (n div 10) = []" by simp
      then show ?thesis using string_of_nat_nonempty by blast
    next
      case mf: False
      then have "string_of_nat m = string_of_nat (m div 10) @ [digit_char (m mod 10)]"
        by (subst string_of_nat.simps) simp
      with n "1.prems" have eq: "string_of_nat (n div 10) = string_of_nat (m div 10)"
        and d: "digit_char (n mod 10) = digit_char (m mod 10)" by simp_all
      from "1.IH"[OF False eq] have "n div 10 = m div 10" .
      moreover from d have "n mod 10 = m mod 10" using digit_char_inj[of "n mod 10" "m mod 10"] by simp
      ultimately show ?thesis by (metis div_mult_mod_eq)
    qed
  qed
qed

lemma retryKey_inj [simp]: "retryKey i = retryKey j \<longleftrightarrow> i = j"
  using string_of_nat_inj by (auto simp: retryKey_def)

lemma retryKey_not_success [simp]: "retryKey i \<noteq> ''successRequests''" "''successRequests'' \<noteq> retryKey i"
  by (simp_all add: retryKey_def)

lemma retryKey_not_failed [simp]: "retryKey i \<noteq> ''failed''" "''failed'' \<noteq> retryKey i"
  by (simp_all add: retryKey_def)

section \<open>One round\<close>

lemma fold_first:
  "fold (\<lambda>batch (failedRequests, successRequests).
            (failedRequests @ grp_failed batch, successRequests @ grp_success batch)) bs (f0, s0)
   = (f0 @ concat (map grp_failed bs), s0 @ concat (map grp_success bs))"
  by (induction bs arbitrary: f0 s0) auto

lemma fold_retry:
  "fold (\<lambda>batch (failedRequests, trigger_Report).
            (failedRequests @ grp_failed batch, trigger_Report(key \<mapsto> grp_success batch))) bs (f0, rep0)
   = (f0 @ concat (map grp_failed bs),
      if bs = [] then rep0 else rep0(key \<mapsto> grp_success (last bs)))"
  by (induction bs arbitrary: f0 rep0) auto

lemma makeRequests_filter:
  "makeRequests post hooks pd =
     \<lparr>grp_success = filter success (batch_responses post hooks pd),
      grp_failed = filter (\<lambda>r. \<not> success r) (batch_responses post hooks pd)\<rparr>"
  by (simp add: makeRequests_def batch_responses_def groupResponses_filter Let_def)

lemma concat_failed:
  "concat (map grp_failed (map (\<lambda>(c, subset). makeRequests (net k c) subset pd) (enumerate n chunks)))
   = filter (\<lambda>r. \<not> success r)
       (concat (map (\<lambda>(c, subset). batch_responses (net k c) subset pd) (enumerate n chunks)))"
  by (induction chunks arbitrary: n) (auto simp: makeRequests_filter)

lemma concat_success:
  "concat (map grp_success (map (\<lambda>(c, subset). makeRequests (net k c) subset pd) (enumerate n chunks)))
   = filter success
       (concat (map (\<lambda>(c, subset). batch_responses (net k c) subset pd) (enumerate n chunks)))"
  by (induction chunks arbitrary: n) (auto simp: makeRequests_filter)

lemma batch_truncate: "map hook.truncate (batch_responses post hooks pd) = map hook.truncate hooks"
proof -
  have "map hook.truncate (batch_responses post hooks pd) = map (hook.truncate \<circ> snd) (enumerate 0 hooks)"
    unfolding batch_responses_def by (auto simp: request_truncate)
  also have "\<dots> = map hook.truncate (map snd (enumerate 0 hooks))"
    by (simp only: map_map)
  also have "\<dots> = map hook.truncate hooks"
    by (simp only: map_snd_enumerate)
  finally show ?thesis .
qed

lemma round_truncate_gen:
  "map hook.truncate (concat (map (\<lambda>(c, subset). batch_responses (net k c) subset pd) (enumerate n chunks)))
   = map hook.truncate (concat chunks)"
  by (induction chunks arbitrary: n) (auto simp: batch_truncate)

lemma round_truncate:
  "map hook.truncate (round_responses net k pd chunks) = map hook.truncate (concat chunks)"
  by (simp add: round_responses_def round_truncate_gen)

lemma truncate_ids: "map hook.truncate xs = map hook.truncate ys \<Longrightarrow> map hook_id xs = map hook_id ys"
proof -
  assume a: "map hook.truncate xs = map hook.truncate ys"
  have "map hook_id xs = map hook_id (map hook.truncate xs)" by (simp add: hook.truncate_def)
  also have "\<dots> = map hook_id (map hook.truncate ys)" by (simp only: a)
  also have "\<dots> = map hook_id ys" by (simp add: hook.truncate_def)
  finally show ?thesis .
qed

lemma batch_responses_set:
  "r \<in> set (batch_responses post hooks pd) \<longleftrightarrow> (\<exists>j < length hooks. r = request post j (hooks ! j) pd)"
  by (auto simp: batch_responses_def in_set_enumerate_eq image_iff Bex_def)

lemma round_responses_set_gen:
  "r \<in> set (concat (map (\<lambda>(c, subset). batch_responses (net k c) subset pd) (enumerate n chunks)))
   \<longleftrightarrow> (\<exists>c < length chunks. r \<in> set (batch_responses (net k (n + c)) (chunks ! c) pd))"
proof (induction chunks arbitrary: n)
  case Nil
  then show ?case by simp
next
  case (Cons a chunks)
  show ?case
  proof
    assume "r \<in> set (concat (map (\<lambda>(c, subset). batch_responses (net k c) subset pd) (enumerate n (a # chunks))))"
    then consider "r \<in> set (batch_responses (net k n) a pd)"
      | "r \<in> set (concat (map (\<lambda>(c, subset). batch_responses (net k c) subset pd) (enumerate (Suc n) chunks)))"
      by auto
    then show "\<exists>c<length (a # chunks). r \<in> set (batch_responses (net k (n + c)) ((a # chunks) ! c) pd)"
    proof cases
      case 1
      then show ?thesis by (intro exI[of _ 0]) simp
    next
      case 2
      then obtain c where "c < length chunks" "r \<in> set (batch_responses (net k (Suc n + c)) (chunks ! c) pd)"
        using Cons.IH[of "Suc n"] by blast
      then show ?thesis by (intro exI[of _ "Suc c"]) simp
    qed
  next
    assume "\<exists>c<length (a # chunks). r \<in> set (batch_responses (net k (n + c)) ((a # chunks) ! c) pd)"
    then obtain c where c: "c < length (a # chunks)" "r \<in> set (batch_responses (net k (n + c)) ((a # chunks) ! c) pd)"
      by blast
    show "r \<in> set (concat (map (\<lambda>(c, subset). batch_responses (net k c) subset pd) (enumerate n (a # chunks))))"
    proof (cases c)
      case 0
      with c show ?thesis by simp
    next
      case (Suc c')
      with c have "c' < length chunks" "r \<in> set (batch_responses (net k (Suc n + c')) (chunks ! c') pd)"
        by simp_all
      then have "r \<in> set (concat (map (\<lambda>(c, subset). batch_responses (net k c) subset pd) (enumerate (Suc n) chunks)))"
        using Cons.IH[of "Suc n"] by blast
      then show ?thesis by simp
    qed
  qed
qed

lemma round_responses_set:
  "r \<in> set (round_responses net k pd chunks)
   \<longleftrightarrow> (\<exists>c < length chunks. \<exists>j < length (chunks ! c). r = request (net k c) j (chunks ! c ! j) pd)"
  unfolding round_responses_def round_responses_set_gen batch_responses_set by simp

lemma last_batch_subset:
  assumes "chunks \<noteq> []"
  shows "set (batch_responses (net k (length chunks - 1)) (last chunks) pd) \<subseteq> set (round_responses net k pd chunks)"
proof
  fix r assume "r \<in> set (batch_responses (net k (length chunks - 1)) (last chunks) pd)"
  then have "r \<in> set (batch_responses (net k (0 + (length chunks - 1))) (chunks ! (length chunks - 1)) pd)"
    using assms by (simp add: last_conv_nth)
  moreover have "length chunks - 1 < length chunks" using assms by simp
  ultimately show "r \<in> set (round_responses net k pd chunks)"
    unfolding round_responses_def round_responses_set_gen by blast
qed

lemma last_enumerate:
  "xs \<noteq> [] \<Longrightarrow> last (enumerate n xs) = (n + length xs - 1, last xs)"
proof (induction xs arbitrary: n)
  case Nil
  then show ?case by simp
next
  case (Cons a xs)
  show ?case
  proof (cases "xs = []")
    case True
    then show ?thesis by simp
  next
    case False
    then have "enumerate (Suc n) xs \<noteq> []"
      by (metis length_enumerate length_0_conv)
    then show ?thesis using Cons.IH[OF False, of "Suc n"] False by simp
  qed
qed

lemma first_pass_eq:
  assumes "chunkWebHooks webHooks (BATCH_SIZE s) = Some chunks"
  shows "first_pass net s webHooks pd =
           Some (filter (\<lambda>r. \<not> success r) (round_responses net 0 pd chunks),
                 filter success (round_responses net 0 pd chunks))"
  using assms
  by (simp add: first_pass_def Let_def fold_first concat_failed concat_success round_responses_def
        del: map_map)

lemma retry_round_eq:
  assumes "chunkWebHooks fr (BATCH_SIZE s) = Some chunks"
  shows "retry_round net s pd i (fr, rep) =
           Some (filter (\<lambda>r. \<not> success r) (round_responses net i pd chunks),
                 if chunks = [] then rep
                 else rep(retryKey i \<mapsto>
                        filter success (batch_responses (net i (length chunks - 1)) (last chunks) pd)))"
proof -
  define bs where "bs = map (\<lambda>(c, subset). makeRequests (net i c) subset pd) (enumerate 0 chunks)"
  have e: "bs = [] \<longleftrightarrow> chunks = []"
    unfolding bs_def by (metis length_enumerate length_0_conv map_is_Nil_conv)
  have l: "grp_success (last bs)
      = filter success (batch_responses (net i (length chunks - 1)) (last chunks) pd)" if ne: "chunks \<noteq> []"
  proof -
    have "enumerate 0 chunks \<noteq> []" using ne by (metis length_enumerate length_0_conv)
    then have "last bs = makeRequests (net i (length chunks - 1)) (last chunks) pd"
      unfolding bs_def using last_enumerate[OF ne, of 0] by (simp add: last_map)
    then show ?thesis by (simp add: makeRequests_filter)
  qed
  have f: "concat (map grp_failed bs) = filter (\<lambda>r. \<not> success r) (round_responses net i pd chunks)"
    unfolding bs_def round_responses_def by (rule concat_failed)
  have "retry_round net s pd i (fr, rep) =
          Some (fold (\<lambda>batch (failedRequests, trigger_Report).
                        (failedRequests @ grp_failed batch,
                         trigger_Report(retryKey i \<mapsto> grp_success batch))) bs ([], rep))"
    using assms by (simp add: retry_round_def Let_def bs_def)
  also have "\<dots> = Some (concat (map grp_failed bs),
                         if bs = [] then rep else rep(retryKey i \<mapsto> grp_success (last bs)))"
    by (simp only: fold_retry append_Nil)
  finally show ?thesis using e l f by auto
qed

lemma retry_round_None:
  "retry_round net s pd i (fr, rep) = None \<longleftrightarrow> chunkWebHooks fr (BATCH_SIZE s) = None"
  by (auto simp: retry_round_def Let_def split: option.splits prod.splits)

lemma first_pass_None:
  "first_pass net s webHooks pd = None \<longleftrightarrow> chunkWebHooks webHooks (BATCH_SIZE s) = None"
  by (auto simp: first_pass_def Let_def split: option.splits prod.splits)

section \<open>The loop and its states\<close>

lemma round_sound:
  assumes "r \<in> set (round_responses net k pd chunks)"
  shows "\<exists>c j h. h \<in> set (concat chunks) \<and> r = request (net k c) j h pd"
proof -
  from assms obtain c j where c: "c < length chunks" "j < length (chunks ! c)"
    "r = request (net k c) j (chunks ! c ! j) pd"
    unfolding round_responses_set by blast
  then have "chunks ! c ! j \<in> set (concat chunks)"
    by (metis nth_mem set_concat UN_I)
  with c show ?thesis by blast
qed

lemma round_complete:
  assumes "h \<in> set (concat chunks)"
  shows "\<exists>c j. request (net k c) j h pd \<in> set (round_responses net k pd chunks)"
proof -
  from assms obtain xs where xs: "xs \<in> set chunks" "h \<in> set xs" by auto
  then obtain c where c: "c < length chunks" "chunks ! c = xs" by (meson in_set_conv_nth)
  from xs obtain j where j: "j < length xs" "xs ! j = h" by (meson in_set_conv_nth)
  have "request (net k c) j h pd \<in> set (round_responses net k pd chunks)"
    unfolding round_responses_set using c j by blast
  then show ?thesis by blast
qed

lemma retry_round_step:
  assumes "1 \<le> BATCH_SIZE s"
  obtains R b where
    "retry_round net s pd i (fr, rep) =
       Some (filter (\<lambda>r. \<not> success r) R, if fr = [] then rep else rep(retryKey i \<mapsto> b))"
    "map hook.truncate R = map hook.truncate fr"
    "set b \<subseteq> set (filter success R)"
    "\<forall>r \<in> set R. \<exists>c j h. h \<in> set fr \<and> r = request (net i c) j h pd"
    "\<forall>h \<in> set fr. \<exists>c j. request (net i c) j h pd \<in> set R"
proof -
  from chunkWebHooks_pos[OF assms, of fr] obtain chunks where c:
    "chunkWebHooks fr (BATCH_SIZE s) = Some chunks" "concat chunks = fr" "chunks = [] \<longleftrightarrow> fr = []"
    by blast
  let ?R = "round_responses net i pd chunks"
  let ?b = "if chunks = [] then []
            else filter success (batch_responses (net i (length chunks - 1)) (last chunks) pd)"
  have 1: "retry_round net s pd i (fr, rep) =
       Some (filter (\<lambda>r. \<not> success r) ?R, if fr = [] then rep else rep(retryKey i \<mapsto> ?b))"
    using retry_round_eq[OF c(1), of net pd i rep] c(3) by simp
  have 2: "map hook.truncate ?R = map hook.truncate fr"
    using round_truncate[of net i pd chunks] c(2) by simp
  have 3: "set ?b \<subseteq> set (filter success ?R)"
  proof (cases "chunks = []")
    case True
    then show ?thesis by simp
  next
    case False
    from last_batch_subset[OF this, of net i pd] show ?thesis using False by auto
  qed
  have 4: "\<forall>r \<in> set ?R. \<exists>c j h. h \<in> set fr \<and> r = request (net i c) j h pd"
    using round_sound[of _ net i pd chunks] c(2) by simp
  have 5: "\<forall>h \<in> set fr. \<exists>c j. request (net i c) j h pd \<in> set ?R"
    using round_complete[of _ chunks net i pd] c(2) by simp
  from that[OF 1 2 3 4 5] show ?thesis .
qed

lemma start_state_step:
  assumes "1 \<le> BATCH_SIZE s"
  obtains R where
    "start_state net s webHooks pd =
       Some (filter (\<lambda>r. \<not> success r) R, [''successRequests'' \<mapsto> filter success R])"
    "map hook.truncate R = map hook.truncate webHooks"
    "\<forall>r \<in> set R. \<exists>c j h. h \<in> set webHooks \<and> r = request (net 0 c) j h pd"
    "\<forall>h \<in> set webHooks. \<exists>c j. request (net 0 c) j h pd \<in> set R"
proof -
  from chunkWebHooks_pos[OF assms, of webHooks] obtain chunks where c:
    "chunkWebHooks webHooks (BATCH_SIZE s) = Some chunks" "concat chunks = webHooks"
    by blast
  let ?R = "round_responses net 0 pd chunks"
  have 1: "start_state net s webHooks pd =
       Some (filter (\<lambda>r. \<not> success r) ?R, [''successRequests'' \<mapsto> filter success ?R])"
    by (simp add: start_state_def first_pass_eq[OF c(1)])
  have 2: "map hook.truncate ?R = map hook.truncate webHooks"
    using round_truncate[of net 0 pd chunks] c(2) by simp
  have 4: "\<forall>r \<in> set ?R. \<exists>c j h. h \<in> set webHooks \<and> r = request (net 0 c) j h pd"
    using round_sound[of _ net 0 pd chunks] c(2) by simp
  have 5: "\<forall>h \<in> set webHooks. \<exists>c j. request (net 0 c) j h pd \<in> set ?R"
    using round_complete[of _ chunks net 0 pd] c(2) by simp
  from that[OF 1 2 4 5] show ?thesis .
qed

lemma state_after_None_mono:
  "state_after net s webHooks pd k = None \<Longrightarrow> k \<le> m \<Longrightarrow> state_after net s webHooks pd m = None"
  by (induction m) (auto simp: le_Suc_eq)

lemma retry_loop_state_after:
  "state_after net s webHooks pd k = Some st \<Longrightarrow>
   retry_loop net s pd (Suc k) st = state_after net s webHooks pd (max k (nat (RETRY_COUNT s) - 1))"
proof (induction "nat (RETRY_COUNT s) - Suc k" arbitrary: k st)
  case 0
  then have "\<not> int (Suc k) < RETRY_COUNT s" by linarith
  moreover have "max k (nat (RETRY_COUNT s) - 1) = k" using 0 by linarith
  ultimately show ?case using "0.prems" by (subst retry_loop.simps) simp
next
  case (Suc d)
  then have lt: "int (Suc k) < RETRY_COUNT s" by linarith
  have m: "max k (nat (RETRY_COUNT s) - 1) = nat (RETRY_COUNT s) - 1"
    "max (Suc k) (nat (RETRY_COUNT s) - 1) = nat (RETRY_COUNT s) - 1"
    "Suc k \<le> nat (RETRY_COUNT s) - 1"
    using lt by linarith+
  have sk: "state_after net s webHooks pd (Suc k) = retry_round net s pd (Suc k) st"
    using Suc.prems by simp
  show ?case
  proof (cases "retry_round net s pd (Suc k) st")
    case None
    then have "state_after net s webHooks pd (nat (RETRY_COUNT s) - 1) = None"
      using sk state_after_None_mono[OF _ m(3)] by metis
    then show ?thesis using None lt m(1) by (subst retry_loop.simps) simp
  next
    case (Some st')
    have d: "d = nat (RETRY_COUNT s) - Suc (Suc k)" using Suc.hyps(2) by linarith
    from Suc.hyps(1)[OF d, of st'] sk Some
    have "retry_loop net s pd (Suc (Suc k)) st' = state_after net s webHooks pd (nat (RETRY_COUNT s) - 1)"
      using m(2) by simp
    then show ?thesis using Some lt m(1) by (subst retry_loop.simps) simp
  qed
qed

lemma initateProcessing_state_after:
  "initateProcessing net s webHooks pd =
     (case state_after net s webHooks pd (nat (RETRY_COUNT s) - 1) of
        None \<Rightarrow> None
      | Some (failedRequests, trigger_Report) \<Rightarrow> Some (trigger_Report(''failed'' \<mapsto> failedRequests)))"
proof (cases "first_pass net s webHooks pd")
  case None
  then have "state_after net s webHooks pd 0 = None" by (simp add: start_state_def)
  then have "state_after net s webHooks pd (nat (RETRY_COUNT s) - 1) = None"
    by (rule state_after_None_mono) simp
  then show ?thesis using None by (simp add: initateProcessing_def)
next
  case (Some p)
  obtain f su where p: "p = (f, su)" by (cases p)
  have "state_after net s webHooks pd 0 = Some (f, [''successRequests'' \<mapsto> su])"
    using Some p by (simp add: start_state_def)
  from retry_loop_state_after[OF this]
  have "retry_loop net s pd 1 (f, [''successRequests'' \<mapsto> su])
          = state_after net s webHooks pd (nat (RETRY_COUNT s) - 1)" by simp
  then show ?thesis using Some p by (simp add: initateProcessing_def Let_def)
qed

lemma initateProcessing_nonpos:
  assumes "BATCH_SIZE s \<le> 0" "webHooks \<noteq> []"
  shows "initateProcessing net s webHooks postData = None"
proof -
  have "chunkWebHooks webHooks (BATCH_SIZE s) = None"
    using chunkWebHooks_nonpos[OF assms(1), of webHooks] assms(2) by simp
  then have "first_pass net s webHooks postData = None" by (simp add: first_pass_None)
  then show ?thesis by (simp add: initateProcessing_def)
qed

lemma initateProcessing_no_retry:
  assumes "1 \<le> BATCH_SIZE s" "RETRY_COUNT s \<le> 1"
  shows "\<exists>f su. first_pass net s webHooks postData = Some (f, su)
           \<and> initateProcessing net s webHooks postData = Some [''successRequests'' \<mapsto> su, ''failed'' \<mapsto> f]"
proof -
  from chunkWebHooks_pos[OF assms(1), of webHooks] obtain chunks where
    "chunkWebHooks webHooks (BATCH_SIZE s) = Some chunks" by blast
  from first_pass_eq[OF this, of net postData] obtain f su where
    fp: "first_pass net s webHooks postData = Some (f, su)" by blast
  have "retry_loop net s postData 1 (f, [''successRequests'' \<mapsto> su]) = Some (f, [''successRequests'' \<mapsto> su])"
    using assms(2) by (subst retry_loop.simps) simp
  then have "initateProcessing net s webHooks postData = Some [''successRequests'' \<mapsto> su, ''failed'' \<mapsto> f]"
    using fp by (simp add: initateProcessing_def Let_def)
  with fp show ?thesis by blast
qed

section \<open>Invariants of the states\<close>

lemma truncate_url: "hook.truncate a = hook.truncate b \<Longrightarrow> hookURL a = hookURL b"
  by (simp add: hook.truncate_def)

lemma truncate_id: "hook.truncate a = hook.truncate b \<Longrightarrow> hook_id a = hook_id b"
  by (simp add: hook.truncate_def)

lemma state_after_total:
  assumes "1 \<le> BATCH_SIZE s"
  shows "\<exists>fr rep. state_after net s webHooks pd k = Some (fr, rep)"
proof (induction k)
  case 0
  from start_state_step[OF assms, of net webHooks pd] show ?case by (metis state_after.simps(1))
next
  case (Suc k)
  then obtain fr rep where st: "state_after net s webHooks pd k = Some (fr, rep)" by blast
  from retry_round_step[OF assms, of net pd "Suc k" fr rep] obtain fr' rep'
    where "retry_round net s pd (Suc k) (fr, rep) = Some (fr', rep')" by metis
  then show ?case using st by simp
qed

lemma never_delivered_inv:
  assumes B: "1 \<le> BATCH_SIZE s"
    and e: "e \<in> set webHooks"
    and fail: "\<forall>k c j. (k = 0 \<or> int k < RETRY_COUNT s) \<longrightarrow> net k c j (hookURL e) pd \<noteq> Resolved 200"
    and k: "k = 0 \<or> int k < RETRY_COUNT s"
  shows "\<exists>fr rep. state_after net s webHooks pd k = Some (fr, rep)
           \<and> hook.truncate e \<in> hook.truncate ` set fr
           \<and> (\<forall>key b. rep key = Some b \<longrightarrow> hook.truncate e \<notin> hook.truncate ` set b)"
  using k
proof (induction k)
  case 0
  from start_state_step[OF B, of net webHooks pd] obtain R where R:
    "start_state net s webHooks pd =
       Some (filter (\<lambda>r. \<not> success r) R, [''successRequests'' \<mapsto> filter success R])"
    "\<forall>r \<in> set R. \<exists>c j h. h \<in> set webHooks \<and> r = request (net 0 c) j h pd"
    "\<forall>h \<in> set webHooks. \<exists>c j. request (net 0 c) j h pd \<in> set R"
    by metis
  from R(3) e obtain c j where r: "request (net 0 c) j e pd \<in> set R" by blast
  have "\<not> success (request (net 0 c) j e pd)"
    using fail by (simp add: request_success)
  with r have "request (net 0 c) j e pd \<in> set (filter (\<lambda>r. \<not> success r) R)" by simp
  then have 1: "hook.truncate e \<in> hook.truncate ` set (filter (\<lambda>r. \<not> success r) R)"
    by (metis image_eqI request_truncate)
  have 2: "hook.truncate e \<notin> hook.truncate ` set (filter success R)"
  proof
    assume "hook.truncate e \<in> hook.truncate ` set (filter success R)"
    then obtain r where r: "r \<in> set R" "success r" "hook.truncate r = hook.truncate e" by auto
    from R(2) r(1) obtain c j h where h0: "h \<in> set webHooks" and h: "r = request (net 0 c) j h pd" by blast
    then have "hookURL h = hookURL e"
      using r(3) truncate_url[of r e] by (simp add: request_def Let_def split: axios_result.splits)
    with h r(2) fail show False by (simp add: request_success)
  qed
  show ?case
    unfolding state_after.simps R(1) using 1 2 by (auto split: if_splits)
next
  case (Suc k)
  then have lt: "int (Suc k) < RETRY_COUNT s" by simp
  then have "k = 0 \<or> int k < RETRY_COUNT s" by linarith
  from Suc.IH[OF this] obtain fr rep where st: "state_after net s webHooks pd k = Some (fr, rep)"
    "hook.truncate e \<in> hook.truncate ` set fr"
    "\<forall>key b. rep key = Some b \<longrightarrow> hook.truncate e \<notin> hook.truncate ` set b"
    by blast
  from retry_round_step[OF B, of net pd "Suc k" fr rep] obtain R b where R:
    "retry_round net s pd (Suc k) (fr, rep) =
       Some (filter (\<lambda>r. \<not> success r) R, if fr = [] then rep else rep(retryKey (Suc k) \<mapsto> b))"
    "set b \<subseteq> set (filter success R)"
    "\<forall>r \<in> set R. \<exists>c j h. h \<in> set fr \<and> r = request (net (Suc k) c) j h pd"
    "\<forall>h \<in> set fr. \<exists>c j. request (net (Suc k) c) j h pd \<in> set R"
    by metis
  from st(2) obtain h where h: "h \<in> set fr" "hook.truncate h = hook.truncate e" by auto
  from R(4) h(1) obtain c j where r: "request (net (Suc k) c) j h pd \<in> set R" by blast
  have "hookURL h = hookURL e" using h(2) by (rule truncate_url)
  then have "\<not> success (request (net (Suc k) c) j h pd)"
    using fail lt by (simp add: request_success)
  with r have "request (net (Suc k) c) j h pd \<in> set (filter (\<lambda>r. \<not> success r) R)" by simp
  moreover have "hook.truncate (request (net (Suc k) c) j h pd) = hook.truncate e"
    using h(2) by (simp add: request_truncate)
  ultimately have 1: "hook.truncate e \<in> hook.truncate ` set (filter (\<lambda>r. \<not> success r) R)"
    by (metis image_eqI)
  have 2: "hook.truncate e \<notin> hook.truncate ` set b"
  proof
    assume "hook.truncate e \<in> hook.truncate ` set b"
    then obtain r where r: "r \<in> set b" "hook.truncate r = hook.truncate e" by auto
    with R(2) have rs: "r \<in> set R" "success r" by auto
    from R(3) rs(1) obtain c j h where h0: "h \<in> set fr" and h: "r = request (net (Suc k) c) j h pd" by blast
    then have "hookURL h = hookURL e"
      using r(2) truncate_url[of r e] by (simp add: request_def Let_def split: axios_result.splits)
    with h rs(2) fail lt show False by (simp add: request_success)
  qed
  have 3: "\<forall>key b'. (if fr = [] then rep else rep(retryKey (Suc k) \<mapsto> b)) key = Some b'
             \<longrightarrow> hook.truncate e \<notin> hook.truncate ` set b'"
    using st(3) 2 by (auto split: if_splits)
  show ?case
    unfolding state_after.simps st(1) option.case R(1) using 1 3 by blast
qed

lemma ids_filter_disjoint:
  "distinct (map hook_id xs) \<Longrightarrow>
   hook_id ` set (filter success xs) \<inter> hook_id ` set (filter (\<lambda>r. \<not> success r) xs) = {}"
  for xs :: "response list"
  by (induction xs) auto

lemma ids_success_not_failed:
  fixes xs :: "response list"
  assumes "distinct (map hook_id xs)" "r \<in> set xs" "success r"
  shows "hook_id r \<notin> hook_id ` set (filter (\<lambda>r. \<not> success r) xs)"
proof -
  have "hook_id r \<in> hook_id ` set (filter success xs)" using assms(2,3) by simp
  with ids_filter_disjoint[OF assms(1)] show ?thesis by (meson disjoint_iff)
qed

lemma distinct_ids_inv:
  assumes B: "1 \<le> BATCH_SIZE s" and d: "distinct (map hook_id webHooks)"
  shows "\<exists>fr rep. state_after net s webHooks pd k = Some (fr, rep)
           \<and> distinct (map hook_id fr)
           \<and> (\<forall>key b r. rep key = Some b \<and> r \<in> set b \<longrightarrow> hook_id r \<notin> hook_id ` set fr)"
proof (induction k)
  case 0
  from start_state_step[OF B, of net webHooks pd] obtain R where R:
    "start_state net s webHooks pd =
       Some (filter (\<lambda>r. \<not> success r) R, [''successRequests'' \<mapsto> filter success R])"
    "map hook.truncate R = map hook.truncate webHooks"
    by metis
  have dR: "distinct (map hook_id R)" using truncate_ids[OF R(2)] d by simp
  have 1: "distinct (map hook_id (filter (\<lambda>r. \<not> success r) R))"
    using dR by (rule distinct_map_filter)
  have 2: "\<forall>r \<in> set (filter success R). hook_id r \<notin> hook_id ` set (filter (\<lambda>r. \<not> success r) R)"
    using ids_success_not_failed[OF dR] by simp
  show ?case unfolding state_after.simps R(1) using 1 2 by (auto split: if_splits)
next
  case (Suc k)
  then obtain fr rep where st: "state_after net s webHooks pd k = Some (fr, rep)"
    "distinct (map hook_id fr)"
    "\<forall>key b r. rep key = Some b \<and> r \<in> set b \<longrightarrow> hook_id r \<notin> hook_id ` set fr"
    by blast
  from retry_round_step[OF B, of net pd "Suc k" fr rep] obtain R b where R:
    "retry_round net s pd (Suc k) (fr, rep) =
       Some (filter (\<lambda>r. \<not> success r) R, if fr = [] then rep else rep(retryKey (Suc k) \<mapsto> b))"
    "map hook.truncate R = map hook.truncate fr"
    "set b \<subseteq> set (filter success R)"
    by metis
  have ids: "map hook_id R = map hook_id fr" using R(2) by (rule truncate_ids)
  then have dR: "distinct (map hook_id R)" using st(2) by simp
  have sub: "hook_id ` set (filter (\<lambda>r. \<not> success r) R) \<subseteq> hook_id ` set fr"
  proof -
    have "hook_id ` set R = hook_id ` set fr" using arg_cong[OF ids, of set] by simp
    then show ?thesis by auto
  qed
  have 1: "distinct (map hook_id (filter (\<lambda>r. \<not> success r) R))"
    using dR by (rule distinct_map_filter)
  have 2: "\<forall>r \<in> set b. hook_id r \<notin> hook_id ` set (filter (\<lambda>r. \<not> success r) R)"
  proof
    fix r assume "r \<in> set b"
    with R(3) have "r \<in> set R" "success r" by auto
    then show "hook_id r \<notin> hook_id ` set (filter (\<lambda>r. \<not> success r) R)"
      by (rule ids_success_not_failed[OF dR])
  qed
  have 3: "hook_id r \<notin> hook_id ` set (filter (\<lambda>r. \<not> success r) R)"
    if a: "(if fr = [] then rep else rep(retryKey (Suc k) \<mapsto> b)) key = Some b'" and rb: "r \<in> set b'"
    for key b' r
  proof (cases "rep key = Some b'")
    case True
    with st(3) rb have "hook_id r \<notin> hook_id ` set fr" by blast
    with sub show ?thesis by blast
  next
    case False
    with a have "b' = b" by (simp split: if_splits)
    with 2 rb show ?thesis by simp
  qed
  have 4: "state_after net s webHooks pd (Suc k) =
       Some (filter (\<lambda>r. \<not> success r) R, if fr = [] then rep else rep(retryKey (Suc k) \<mapsto> b))"
    using st(1) R(1) by simp
  show ?case
    apply (rule exI[of _ "filter (\<lambda>r. \<not> success r) R"])
    apply (rule exI[of _ "if fr = [] then rep else rep(retryKey (Suc k) \<mapsto> b)"])
    apply (intro conjI allI impI)
      apply (rule 4)
     apply (rule 1)
    apply (erule conjE)
    apply (rule 3, assumption, assumption)
    done
qed

lemma ids_mono:
  assumes B: "1 \<le> BATCH_SIZE s"
  shows "state_after net s webHooks pd k = Some (fr, rep) \<Longrightarrow>
         state_after net s webHooks pd (k + d) = Some (fr', rep') \<Longrightarrow>
         hook_id ` set fr' \<subseteq> hook_id ` set fr"
proof (induction d arbitrary: fr' rep')
  case 0
  then show ?case by simp
next
  case (Suc d)
  from state_after_total[OF B, of net webHooks pd "k + d"] obtain f1 r1
    where m: "state_after net s webHooks pd (k + d) = Some (f1, r1)" by blast
  from Suc.IH[OF Suc.prems(1) m] have sub: "hook_id ` set f1 \<subseteq> hook_id ` set fr" .
  from retry_round_step[OF B, of net pd "Suc (k + d)" f1 r1] obtain R b where R:
    "retry_round net s pd (Suc (k + d)) (f1, r1) =
       Some (filter (\<lambda>r. \<not> success r) R, if f1 = [] then r1 else r1(retryKey (Suc (k + d)) \<mapsto> b))"
    "map hook.truncate R = map hook.truncate f1"
    by metis
  have "fr' = filter (\<lambda>r. \<not> success r) R"
    using Suc.prems(2) m R(1) by simp
  moreover have "hook_id ` set R = hook_id ` set f1"
    using arg_cong[OF truncate_ids[OF R(2)], of set] by simp
  ultimately show ?case using sub by auto
qed

lemma retry_round_report:
  assumes "retry_round net s pd i (fr, rep) = Some (fr', rep')"
  shows "rep' = rep \<or> (\<exists>b. rep' = rep(retryKey i \<mapsto> b))"
proof -
  from assms obtain chunks where c: "chunkWebHooks fr (BATCH_SIZE s) = Some chunks"
    using retry_round_None[of net s pd i fr rep] by (cases "chunkWebHooks fr (BATCH_SIZE s)") auto
  from retry_round_eq[OF c, of net pd i rep] assms show ?thesis by (auto split: if_splits)
qed

lemma start_state_report:
  assumes "start_state net s webHooks pd = Some (fr, rep)"
  shows "\<exists>su. rep = [''successRequests'' \<mapsto> su]"
  using assms by (auto simp: start_state_def split: option.splits prod.splits)

lemma keys_step:
  "D \<subseteq> insert S (f ` {1..k}) \<Longrightarrow> insert (f (Suc k)) D \<subseteq> insert S (f ` {1..Suc k})"
  by auto

lemma keys_mono:
  "D \<subseteq> insert S (f ` {1..k}) \<Longrightarrow> D \<subseteq> insert S (f ` {1..Suc k})"
  by auto

lemma dom_inv:
  "state_after net s webHooks pd k = Some (fr, rep) \<Longrightarrow>
   dom rep \<subseteq> insert ''successRequests'' (retryKey ` {1..k})"
proof (induction k arbitrary: fr rep)
  case 0
  then have "start_state net s webHooks pd = Some (fr, rep)" by simp
  from start_state_report[OF this] obtain su where "rep = [''successRequests'' \<mapsto> su]" by blast
  then have "dom rep = {''successRequests''}" by (simp only: dom_fun_upd dom_empty) simp
  then show ?case by blast
next
  case (Suc k)
  from Suc.prems obtain f1 r1 where m: "state_after net s webHooks pd k = Some (f1, r1)"
    and r: "retry_round net s pd (Suc k) (f1, r1) = Some (fr, rep)"
    by (auto split: option.splits)
  from Suc.IH[OF m] have d: "dom r1 \<subseteq> insert ''successRequests'' (retryKey ` {1..k})" .
  from retry_round_report[OF r] show ?case
  proof
    assume "rep = r1"
    then show ?thesis using keys_mono[OF d] by simp
  next
    assume "\<exists>b. rep = r1(retryKey (Suc k) \<mapsto> b)"
    then obtain b where "rep = r1(retryKey (Suc k) \<mapsto> b)" by blast
    then have "dom rep = insert (retryKey (Suc k)) (dom r1)" by simp
    then show ?thesis using keys_step[OF d] by simp
  qed
qed

lemma bucket_dom:
  assumes "state_after net s webHooks pd k = Some (fr, rep)" "success_bucket rep i = Some b"
  shows "i \<le> k"
proof (cases "i = 0")
  case True
  then show ?thesis by simp
next
  case False
  with assms(2) have "retryKey i \<in> dom rep" by (auto simp: success_bucket_def)
  with dom_inv[OF assms(1)] have "retryKey i \<in> retryKey ` {1..k}" by auto
  then show ?thesis by auto
qed

lemma bucket_stable:
  "state_after net s webHooks pd i = Some (fi, ri) \<Longrightarrow>
   state_after net s webHooks pd (i + d) = Some (fr, rep) \<Longrightarrow>
   success_bucket rep i = success_bucket ri i"
proof (induction d arbitrary: fr rep)
  case 0
  then show ?case by simp
next
  case (Suc d)
  from Suc.prems(2) obtain f1 r1 where m: "state_after net s webHooks pd (i + d) = Some (f1, r1)"
    and r: "retry_round net s pd (Suc (i + d)) (f1, r1) = Some (fr, rep)"
    by (auto split: option.splits)
  from Suc.IH[OF Suc.prems(1) m] have eq: "success_bucket r1 i = success_bucket ri i" .
  from retry_round_report[OF r] have "success_bucket rep i = success_bucket r1 i"
    by (auto simp: success_bucket_def)
  with eq show ?case by simp
qed

lemma empty_stays:
  "state_after net s webHooks pd k = Some ([], rep) \<Longrightarrow>
   state_after net s webHooks pd (k + d) = Some ([], rep)"
proof (induction d)
  case 0
  then show ?case by simp
next
  case (Suc d)
  have "retry_round net s pd (Suc (k + d)) ([], rep) = Some ([], rep)"
    using retry_round_eq[OF chunkWebHooks_Nil, of net s pd "Suc (k + d)" rep]
    by (simp add: round_responses_def)
  then show ?case using Suc by simp
qed

lemma succeeded_not_in_failures:
  assumes B: "1 \<le> BATCH_SIZE s" and d: "distinct (map hook_id webHooks)"
  shows "\<exists>attempts fi ri. attempts_of_round net s webHooks pd i = Some attempts
           \<and> state_after net s webHooks pd i = Some (fi, ri)
           \<and> (\<forall>r \<in> set attempts. success r \<longrightarrow> hook_id r \<notin> hook_id ` set fi)"
proof (cases i)
  case 0
  from chunkWebHooks_pos[OF B, of webHooks] obtain chunks where c:
    "chunkWebHooks webHooks (BATCH_SIZE s) = Some chunks" "concat chunks = webHooks" by blast
  let ?R = "round_responses net 0 pd chunks"
  have a: "attempts_of_round net s webHooks pd i = Some ?R"
    using 0 c(1) by (simp add: attempts_of_round_def first_attempts_def)
  have st: "state_after net s webHooks pd i =
      Some (filter (\<lambda>r. \<not> success r) ?R, [''successRequests'' \<mapsto> filter success ?R])"
    using 0 by (simp add: start_state_def first_pass_eq[OF c(1)])
  have "map hook.truncate ?R = map hook.truncate webHooks"
    using round_truncate[of net 0 pd chunks] c(2) by simp
  then have dR: "distinct (map hook_id ?R)" using truncate_ids d by metis
  have n: "\<forall>r \<in> set ?R. success r \<longrightarrow> hook_id r \<notin> hook_id ` set (filter (\<lambda>r. \<not> success r) ?R)"
    using ids_success_not_failed[OF dR] by blast
  show ?thesis
    apply (rule exI[of _ ?R])
    apply (rule exI[of _ "filter (\<lambda>r. \<not> success r) ?R"])
    apply (rule exI[of _ "[''successRequests'' \<mapsto> filter success ?R]"])
    apply (intro conjI)
      apply (rule a)
     apply (rule st)
    apply (rule n)
    done
next
  case (Suc k)
  from distinct_ids_inv[OF B d, of net pd k] obtain fr rep where k:
    "state_after net s webHooks pd k = Some (fr, rep)" "distinct (map hook_id fr)" by blast
  from chunkWebHooks_pos[OF B, of fr] obtain chunks where c:
    "chunkWebHooks fr (BATCH_SIZE s) = Some chunks" "concat chunks = fr" by blast
  let ?R = "round_responses net i pd chunks"
  let ?rep = "if chunks = [] then rep
              else rep(retryKey i \<mapsto>
                     filter success (batch_responses (net i (length chunks - 1)) (last chunks) pd))"
  have inp: "round_input net s webHooks pd i = Some fr"
    unfolding round_input_def using Suc k(1) by simp
  have a: "attempts_of_round net s webHooks pd i = Some ?R"
    unfolding attempts_of_round_def round_attempts_def inp using Suc c(1) by simp
  have st: "state_after net s webHooks pd i = Some (filter (\<lambda>r. \<not> success r) ?R, ?rep)"
    using Suc k(1) retry_round_eq[OF c(1), of net pd i rep] by simp
  have "map hook.truncate ?R = map hook.truncate fr"
    using round_truncate[of net i pd chunks] c(2) by simp
  then have dR: "distinct (map hook_id ?R)" using truncate_ids k(2) by metis
  have n: "\<forall>r \<in> set ?R. success r \<longrightarrow> hook_id r \<notin> hook_id ` set (filter (\<lambda>r. \<not> success r) ?R)"
    using ids_success_not_failed[OF dR] by blast
  show ?thesis
    apply (rule exI[of _ ?R])
    apply (rule exI[of _ "filter (\<lambda>r. \<not> success r) ?R"])
    apply (rule exI[of _ ?rep])
    apply (intro conjI)
      apply (rule a)
     apply (rule st)
    apply (rule n)
    done
qed

section \<open>The claims about the retry coordinator\<close>

text \<open>
  C8. Let the batch size be at least 1 and let \<open>e\<close> be one of the hooks. If the
  delivery to \<open>e\<close> fails in every round, that is, in no round that runs (round 0 and the
  retries \<open>k < RETRY_COUNT\<close>) the network answers a post to the URL of \<open>e\<close> with
  status 200, then the trigger returns a report, \<open>e\<close> (its \<^verbatim>\<open>_id\<close>, \<^verbatim>\<open>name\<close> and
  \<^verbatim>\<open>hookURL\<close>) is in the bucket \<^verbatim>\<open>failed\<close> and in no other bucket of the report.
\<close>

theorem retry_exhaustion:
  assumes B: "1 \<le> BATCH_SIZE s"
    and e: "e \<in> set webHooks"
    and fail: "\<forall>k c j. (k = 0 \<or> int k < RETRY_COUNT s) \<longrightarrow> net k c j (hookURL e) postData \<noteq> Resolved 200"
  shows "\<exists>rep failed. initateProcessing net s webHooks postData = Some rep
           \<and> rep ''failed'' = Some failed
           \<and> hook.truncate e \<in> hook.truncate ` set failed
           \<and> (\<forall>key b. key \<noteq> ''failed'' \<and> rep key = Some b \<longrightarrow> hook.truncate e \<notin> hook.truncate ` set b)"
proof -
  let ?K = "nat (RETRY_COUNT s) - 1"
  have "?K = 0 \<or> int ?K < RETRY_COUNT s" by linarith
  from never_delivered_inv[of s e webHooks net postData ?K, OF B e fail this] obtain fr rep where st:
    "state_after net s webHooks postData ?K = Some (fr, rep)"
    "hook.truncate e \<in> hook.truncate ` set fr"
    "\<forall>key b. rep key = Some b \<longrightarrow> hook.truncate e \<notin> hook.truncate ` set b"
    by blast
  have 1: "initateProcessing net s webHooks postData = Some (rep(''failed'' \<mapsto> fr))"
    unfolding initateProcessing_state_after st(1) by simp
  have 2: "(rep(''failed'' \<mapsto> fr)) ''failed'' = Some fr" by simp
  have 3: "\<forall>key b. key \<noteq> ''failed'' \<and> (rep(''failed'' \<mapsto> fr)) key = Some b
             \<longrightarrow> hook.truncate e \<notin> hook.truncate ` set b"
    using st(3) by (simp add: fun_upd_def)
  show ?thesis
    apply (rule exI[of _ "rep(''failed'' \<mapsto> fr)"])
    apply (rule exI[of _ fr])
    apply (intro conjI)
       apply (rule 1)
      apply (rule 2)
     apply (rule st(2))
    apply (rule 3)
    done
qed

theorem retry_exhaustion_witness:
  "1 \<le> BATCH_SIZE default_settings \<and> seed_hook 1 \<in> set [seed_hook 0, seed_hook 1]
   \<and> (\<exists>rep failed.
         initateProcessing (one_down (hookURL (seed_hook 1))) default_settings [seed_hook 0, seed_hook 1] () = Some rep
         \<and> rep ''failed'' = Some failed
         \<and> hook.truncate (seed_hook 1) \<in> hook.truncate ` set failed
         \<and> (\<forall>key b. key \<noteq> ''failed'' \<and> rep key = Some b
               \<longrightarrow> hook.truncate (seed_hook 1) \<notin> hook.truncate ` set b))"
proof -
  have B: "1 \<le> BATCH_SIZE default_settings" by (simp add: default_settings_def)
  have e: "seed_hook 1 \<in> set [seed_hook 0, seed_hook 1]" by simp
  have f: "\<forall>k c j. (k = 0 \<or> int k < RETRY_COUNT default_settings) \<longrightarrow>
             one_down (hookURL (seed_hook 1)) k c j (hookURL (seed_hook 1)) () \<noteq> Resolved 200"
    by (simp add: one_down_def)
  from retry_exhaustion[of default_settings "seed_hook 1" "[seed_hook 0, seed_hook 1]"
      "one_down (hookURL (seed_hook 1))" "()", OF B e f] B e show ?thesis by blast
qed

text \<open>
  C2. Let the batch size be at least 1 and the ids of the hooks pairwise distinct. The
  trigger returns a report. For every round \<open>i\<close> (the first pass or a retry) and every
  later round \<open>j\<close> that runs, no hook whose attempt in round \<open>i\<close> succeeded is in the
  input of round \<open>j\<close>: its id is not among the ids of that input, whether or not the
  report still holds its response. In particular this holds for every response in the
  success bucket of round \<open>i\<close> (\<^verbatim>\<open>successRequests\<close> for \<open>i = 0\<close>,
  \<^verbatim>\<open>retrySuccess${i}\<close> otherwise). A hook that succeeded is not contacted again.
\<close>

theorem successes_not_retried:
  assumes B: "1 \<le> BATCH_SIZE s"
    and d: "distinct (map hook_id webHooks)"
  shows "\<exists>rep. initateProcessing net s webHooks postData = Some rep
           \<and> (\<forall>i j. i < j \<and> int j < RETRY_COUNT s
                \<longrightarrow> (\<exists>attempts input.
                       attempts_of_round net s webHooks postData i = Some attempts
                       \<and> round_input net s webHooks postData j = Some input
                       \<and> (\<forall>r \<in> set attempts. success r \<longrightarrow> hook_id r \<notin> hook_id ` set input)))
           \<and> (\<forall>i j b r. success_bucket rep i = Some b \<and> r \<in> set b \<and> i < j \<and> int j < RETRY_COUNT s
                \<longrightarrow> (\<exists>input. round_input net s webHooks postData j = Some input
                       \<and> hook_id r \<notin> hook_id ` set input))"
proof -
  let ?K = "nat (RETRY_COUNT s) - 1"
  from state_after_total[OF B, of net webHooks postData ?K] obtain frK repK where
    K: "state_after net s webHooks postData ?K = Some (frK, repK)" by blast
  have 1: "initateProcessing net s webHooks postData = Some (repK(''failed'' \<mapsto> frK))"
    unfolding initateProcessing_state_after K by simp
  have later: "\<exists>fj rj. state_after net s webHooks postData (j - 1) = Some (fj, rj)
                 \<and> round_input net s webHooks postData j = Some fj
                 \<and> hook_id ` set fj \<subseteq> hook_id ` set fi"
    if i: "state_after net s webHooks postData i = Some (fi, ri)" and ij: "i < j" for i j fi ri
  proof -
    from state_after_total[OF B, of net webHooks postData "j - 1"] obtain fj rj where
      j: "state_after net s webHooks postData (j - 1) = Some (fj, rj)" by blast
    have "j - 1 = i + (j - 1 - i)" using ij by simp
    with j have "state_after net s webHooks postData (i + (j - 1 - i)) = Some (fj, rj)" by simp
    from ids_mono[OF B i this] have "hook_id ` set fj \<subseteq> hook_id ` set fi" .
    moreover have "round_input net s webHooks postData j = Some fj"
      unfolding round_input_def j by simp
    ultimately show ?thesis using j by blast
  qed
  have 2: "\<exists>input. round_input net s webHooks postData j = Some input \<and> hook_id r \<notin> hook_id ` set input"
    if a: "success_bucket (repK(''failed'' \<mapsto> frK)) i = Some b" "r \<in> set b" "i < j" "int j < RETRY_COUNT s"
    for i j b r
  proof -
    have bK: "success_bucket repK i = Some b"
      using a(1) by (simp add: success_bucket_def split: if_splits)
    from bucket_dom[OF K bK] have iK: "i \<le> ?K" .
    from distinct_ids_inv[OF B d, of net postData i] obtain fi ri where
      i: "state_after net s webHooks postData i = Some (fi, ri)"
      "\<forall>key b r. ri key = Some b \<and> r \<in> set b \<longrightarrow> hook_id r \<notin> hook_id ` set fi"
      by blast
    have "?K = i + (?K - i)" using iK by simp
    with K have "state_after net s webHooks postData (i + (?K - i)) = Some (frK, repK)" by simp
    from bucket_stable[OF i(1) this] bK have bi: "success_bucket ri i = Some b" by simp
    then have "\<exists>key. ri key = Some b" by (auto simp: success_bucket_def split: if_splits)
    with i(2) a(2) have notin: "hook_id r \<notin> hook_id ` set fi" by blast
    from later[OF i(1) a(3)] obtain fj where
      "round_input net s webHooks postData j = Some fj" "hook_id ` set fj \<subseteq> hook_id ` set fi"
      by blast
    with notin show ?thesis by blast
  qed
  have 3: "\<exists>attempts input.
             attempts_of_round net s webHooks postData i = Some attempts
             \<and> round_input net s webHooks postData j = Some input
             \<and> (\<forall>r \<in> set attempts. success r \<longrightarrow> hook_id r \<notin> hook_id ` set input)"
    if ij: "i < j" for i j
  proof -
    from succeeded_not_in_failures[OF B d, of net postData i] obtain attempts fi ri where
      at: "attempts_of_round net s webHooks postData i = Some attempts"
      and i: "state_after net s webHooks postData i = Some (fi, ri)"
      and n: "\<forall>r \<in> set attempts. success r \<longrightarrow> hook_id r \<notin> hook_id ` set fi"
      by blast
    from later[OF i ij] obtain fj where
      fj: "round_input net s webHooks postData j = Some fj" "hook_id ` set fj \<subseteq> hook_id ` set fi"
      by blast
    have "\<forall>r \<in> set attempts. success r \<longrightarrow> hook_id r \<notin> hook_id ` set fj"
    proof (intro ballI impI)
      fix r assume "r \<in> set attempts" "success r"
      with n have "hook_id r \<notin> hook_id ` set fi" by blast
      with fj(2) show "hook_id r \<notin> hook_id ` set fj" by blast
    qed
    with at fj(1) show ?thesis by blast
  qed
  show ?thesis
    apply (rule exI[of _ "repK(''failed'' \<mapsto> frK)"])
    apply (rule conjI, rule 1)
    apply (rule conjI)
     apply (intro allI impI)
     apply (elim conjE)
     apply (rule 3, assumption)
    apply (intro allI impI)
    apply (elim conjE)
    apply (rule 2; assumption)
    done
qed

lemma seed_ids_distinct_11: "distinct (map hook_id (map seed_hook [0..<11]))"
  by code_simp

theorem successes_not_retried_witness:
  "1 \<le> BATCH_SIZE default_settings \<and> distinct (map hook_id [seed_hook 0, seed_hook 1])
   \<and> (\<exists>rep r input.
         initateProcessing (one_down (hookURL (seed_hook 1))) default_settings [seed_hook 0, seed_hook 1] () = Some rep
         \<and> success_bucket rep 0 = Some [r] \<and> hook_id r = hook_id (seed_hook 0)
         \<and> round_input (one_down (hookURL (seed_hook 1))) default_settings [seed_hook 0, seed_hook 1] () 1 = Some input
         \<and> hook_id r \<notin> hook_id ` set input)
   \<and> distinct (map hook_id (map seed_hook [0..<11]))
   \<and> (\<exists>rep attempts input.
         initateProcessing down_then_up default_settings (map seed_hook [0..<11]) () = Some rep
         \<and> attempts_of_round down_then_up default_settings (map seed_hook [0..<11]) () 1 = Some attempts
         \<and> map hook_id (filter success attempts) = map hook_id (map seed_hook [0..<11])
         \<and> map_option (map hook_id) (success_bucket rep 1) = Some [hook_id (seed_hook 10)]
         \<and> round_input down_then_up default_settings (map seed_hook [0..<11]) () 2 = Some input
         \<and> hook_id (seed_hook 0) \<notin> hook_id ` set input)"
proof -
  let ?net = "one_down (hookURL (seed_hook 1))"
  let ?hooks = "[seed_hook 0, seed_hook 1]"
  let ?r = "\<lparr>hook_id = hook_id (seed_hook 0), name = name (seed_hook 0),
              hookURL = hookURL (seed_hook 0), success = True\<rparr>"
  have B: "1 \<le> BATCH_SIZE default_settings" by (simp add: default_settings_def)
  have ev: "map_option (\<lambda>rep. rep ''successRequests'') (initateProcessing ?net default_settings ?hooks ())
              = Some (Some [?r])"
    by code_simp
  let ?ATT = "\<lambda>net hooks. \<forall>i j. i < j \<and> int j < RETRY_COUNT default_settings
                \<longrightarrow> (\<exists>attempts input.
                       attempts_of_round net default_settings hooks () i = Some attempts
                       \<and> round_input net default_settings hooks () j = Some input
                       \<and> (\<forall>r \<in> set attempts. success r \<longrightarrow> hook_id r \<notin> hook_id ` set input))"
  let ?ALL = "\<lambda>net hooks rep. \<forall>i j b r. success_bucket rep i = Some b \<and> r \<in> set b \<and> i < j
                  \<and> int j < RETRY_COUNT default_settings
                \<longrightarrow> (\<exists>input. round_input net default_settings hooks () j = Some input
                       \<and> hook_id r \<notin> hook_id ` set input)"
  from successes_not_retried[of default_settings ?hooks ?net "()", OF B seed_ids_distinct]
  obtain rep where R: "initateProcessing ?net default_settings ?hooks () = Some rep
      \<and> ?ATT ?net ?hooks \<and> ?ALL ?net ?hooks rep"
    by (rule exE)
  note rep = R[THEN conjunct1] and all = R[THEN conjunct2, THEN conjunct2]
  from ev rep have b0: "success_bucket rep 0 = Some [?r]" by (simp add: success_bucket_def)
  have "int 1 < RETRY_COUNT default_settings" by (simp add: default_settings_def)
  with all b0 have "\<exists>input. round_input ?net default_settings ?hooks () 1 = Some input
                       \<and> hook_id ?r \<notin> hook_id ` set input"
    by (metis list.set_intros(1) zero_less_one)
  then obtain input where "round_input ?net default_settings ?hooks () 1 = Some input"
    "hook_id ?r \<notin> hook_id ` set input" by blast
  with rep b0 have first: "\<exists>rep r input.
         initateProcessing ?net default_settings ?hooks () = Some rep
         \<and> success_bucket rep 0 = Some [r] \<and> hook_id r = hook_id (seed_hook 0)
         \<and> round_input ?net default_settings ?hooks () 1 = Some input
         \<and> hook_id r \<notin> hook_id ` set input"
    by (intro exI[of _ rep] exI[of _ ?r] exI[of _ input]) simp_all
  let ?many = "map seed_hook [0..<11]"
  have j2: "(1::nat) < 2 \<and> int 2 < RETRY_COUNT default_settings" by (simp add: default_settings_def)
  from successes_not_retried[of default_settings ?many down_then_up "()", OF B seed_ids_distinct_11]
  obtain rep' where R': "initateProcessing down_then_up default_settings ?many () = Some rep'
      \<and> ?ATT down_then_up ?many \<and> ?ALL down_then_up ?many rep'"
    by (rule exE)
  note rep' = R'[THEN conjunct1] and att = R'[THEN conjunct2, THEN conjunct1]
  from att j2 obtain attempts input' where
    at: "attempts_of_round down_then_up default_settings ?many () 1 = Some attempts"
    and inp: "round_input down_then_up default_settings ?many () 2 = Some input'"
    and no: "\<forall>r \<in> set attempts. success r \<longrightarrow> hook_id r \<notin> hook_id ` set input'"
    by blast
  have "map_option (map hook_id \<circ> filter success)
          (attempts_of_round down_then_up default_settings ?many () 1) = Some (map hook_id ?many)"
    by code_simp
  with at have ids: "map hook_id (filter success attempts) = map hook_id ?many" by simp
  have "map_option (\<lambda>rep. map_option (map hook_id) (success_bucket rep 1))
          (initateProcessing down_then_up default_settings ?many ()) = Some (Some [hook_id (seed_hook 10)])"
    by code_simp
  with rep' have bucket: "map_option (map hook_id) (success_bucket rep' 1) = Some [hook_id (seed_hook 10)]"
    by simp
  have "hook_id (seed_hook 0) \<in> set (map hook_id ?many)" by code_simp
  with ids have "hook_id (seed_hook 0) \<in> set (map hook_id (filter success attempts))" by simp
  then obtain r0 where "r0 \<in> set attempts" "success r0" "hook_id r0 = hook_id (seed_hook 0)" by auto
  with no have out: "hook_id (seed_hook 0) \<notin> hook_id ` set input'" by metis
  have second: "\<exists>rep attempts input.
         initateProcessing down_then_up default_settings ?many () = Some rep
         \<and> attempts_of_round down_then_up default_settings ?many () 1 = Some attempts
         \<and> map hook_id (filter success attempts) = map hook_id ?many
         \<and> map_option (map hook_id) (success_bucket rep 1) = Some [hook_id (seed_hook 10)]
         \<and> round_input down_then_up default_settings ?many () 2 = Some input
         \<and> hook_id (seed_hook 0) \<notin> hook_id ` set input"
    apply (rule exI[of _ rep'])
    apply (rule exI[of _ attempts])
    apply (rule exI[of _ input'])
    apply (intro conjI)
         apply (rule rep')
        apply (rule at)
       apply (rule ids)
      apply (rule bucket)
     apply (rule inp)
    apply (rule out)
    done
  show ?thesis
    apply (intro conjI)
        apply (rule B)
       apply (rule seed_ids_distinct)
      apply (rule first)
     apply (rule seed_ids_distinct_11)
    apply (rule second)
    done
qed

text \<open>
  C10. Let \<open>i\<close> be a retry round that runs (\<open>1 \<le> i < RETRY_COUNT\<close>) and let
  \<^verbatim>\<open>failedRequests\<close> be empty when it starts. Then the round makes no delivery attempt,
  the trigger returns a report, and the report has no key \<^verbatim>\<open>retrySuccess${i}\<close>: the key
  is absent, not bound to an empty array.
\<close>

theorem empty_round_leaves_no_key:
  assumes i: "1 \<le> i" "int i < RETRY_COUNT s"
    and inp: "round_input net s webHooks postData i = Some []"
  shows "round_attempts net s webHooks postData i = Some []
         \<and> (\<exists>rep. initateProcessing net s webHooks postData = Some rep \<and> rep (retryKey i) = None)"
proof -
  from inp obtain rep0 where st: "state_after net s webHooks postData (i - 1) = Some ([], rep0)"
    by (auto simp: round_input_def)
  have 1: "round_attempts net s webHooks postData i = Some []"
    unfolding round_attempts_def inp by (simp add: chunkWebHooks_Nil round_responses_def)
  let ?K = "nat (RETRY_COUNT s) - 1"
  have "?K = (i - 1) + (?K - (i - 1))" using i by linarith
  with empty_stays[OF st, of "?K - (i - 1)"]
  have K: "state_after net s webHooks postData ?K = Some ([], rep0)" by simp
  have 2: "initateProcessing net s webHooks postData = Some (rep0(''failed'' \<mapsto> []))"
    unfolding initateProcessing_state_after K by simp
  have "retryKey i \<notin> dom rep0"
  proof
    assume "retryKey i \<in> dom rep0"
    with dom_inv[OF st] have "retryKey i \<in> retryKey ` {1..i - 1}" by auto
    then have "i \<in> {1..i - 1}" by auto
    with i(1) show False by simp
  qed
  then have 3: "(rep0(''failed'' \<mapsto> [])) (retryKey i) = None" by (simp add: domIff)
  show ?thesis using 1 2 3 by blast
qed

theorem empty_round_leaves_no_key_witness:
  "(1::nat) \<le> 1 \<and> int 1 < RETRY_COUNT default_settings
   \<and> round_input always_up default_settings [seed_hook 0] () 1 = Some []
   \<and> round_attempts always_up default_settings [seed_hook 0] () 1 = Some []
   \<and> (\<exists>rep. initateProcessing always_up default_settings [seed_hook 0] () = Some rep
           \<and> rep (retryKey 1) = None)"
proof -
  have i: "(1::nat) \<le> 1" "int 1 < RETRY_COUNT default_settings" by (simp_all add: default_settings_def)
  have inp: "round_input always_up default_settings [seed_hook 0] () 1 = Some []" by code_simp
  from empty_round_leaves_no_key[OF i inp] i inp show ?thesis by blast
qed

text \<open>
  C9. When the store has no hooks, the trigger returns, for every network and all
  settings, the report \<^verbatim>\<open>{successRequests: [], failed: []}\<close>: no key of it holds a
  response. The buckets of the retries hold nothing because their keys are not written.
\<close>

theorem nothing_to_dispatch:
  "initateProcessing net s ([] :: 'a hook_scheme list) postData = Some [''successRequests'' \<mapsto> [], ''failed'' \<mapsto> []]
   \<and> trigger net s (Inr ([] :: 'a hook_scheme list)) postData = Some (Returned [''successRequests'' \<mapsto> [], ''failed'' \<mapsto> []])
   \<and> (\<forall>key. (case [''successRequests'' \<mapsto> [], ''failed'' \<mapsto> ([] :: response list)] key of
                 None \<Rightarrow> [] | Some b \<Rightarrow> b) = [])
   \<and> [''successRequests'' \<mapsto> [], ''failed'' \<mapsto> ([] :: response list)] (retryKey i) = None"
proof -
  have "start_state net s ([] :: 'a hook_scheme list) postData = Some ([], [''successRequests'' \<mapsto> []])"
    by (simp add: start_state_def first_pass_eq[OF chunkWebHooks_Nil] round_responses_def)
  then have "state_after net s ([] :: 'a hook_scheme list) postData 0 = Some ([], [''successRequests'' \<mapsto> []])" by simp
  from empty_stays[OF this, of "nat (RETRY_COUNT s) - 1"]
  have "state_after net s ([] :: 'a hook_scheme list) postData (nat (RETRY_COUNT s) - 1) = Some ([], [''successRequests'' \<mapsto> []])"
    by simp
  then have 1: "initateProcessing net s ([] :: 'a hook_scheme list) postData = Some [''successRequests'' \<mapsto> [], ''failed'' \<mapsto> []]"
    unfolding initateProcessing_state_after by simp
  then have 2: "trigger net s (Inr ([] :: 'a hook_scheme list)) postData = Some (Returned [''successRequests'' \<mapsto> [], ''failed'' \<mapsto> []])"
    by (simp add: trigger_def)
  show ?thesis using 1 2 by simp
qed

text \<open>
  C7. The source has no check of \<^verbatim>\<open>chunkSize\<close>, \<^verbatim>\<open>BATCH_SIZE\<close> or
  \<^verbatim>\<open>RETRY_COUNT\<close>, neither in the chunker nor when the service starts. With size 0 or
  -1 on one hook the loop of the chunker never leaves (it pushes empty slices for
  ever; memory is not bounded here), so the chunker gives no result and signals
  nothing; with \<^verbatim>\<open>BATCH_SIZE\<close> 0 the trigger never returns (it does not
  throw); with \<^verbatim>\<open>RETRY_COUNT\<close> 0 the trigger runs and returns a report.
\<close>

theorem no_validation_counterexample:
  "chunkWebHooks [seed_hook 0] 0 = None
   \<and> chunkWebHooks [seed_hook 0] (- 1) = None
   \<and> trigger always_up \<lparr>BATCH_SIZE = 0, RETRY_COUNT = 3\<rparr> (Inr [seed_hook 0]) () = None
   \<and> map_option is_Returned
        (trigger always_up \<lparr>BATCH_SIZE = 10, RETRY_COUNT = 0\<rparr> (Inr [seed_hook 0]) ()) = Some True"
proof -
  have 1: "chunkWebHooks [seed_hook 0] 0 = None"
    using chunkWebHooks_nonpos[of 0 "[seed_hook 0]"] by simp
  have 2: "chunkWebHooks [seed_hook 0] (- 1) = None"
    using chunkWebHooks_nonpos[of "- 1" "[seed_hook 0]"] by simp
  have "initateProcessing always_up \<lparr>BATCH_SIZE = 0, RETRY_COUNT = 3\<rparr> [seed_hook 0] () = None"
    by (rule initateProcessing_nonpos) simp_all
  then have 3: "trigger always_up \<lparr>BATCH_SIZE = 0, RETRY_COUNT = 3\<rparr> (Inr [seed_hook 0]) () = None"
    by (simp add: trigger_def)
  have "\<exists>f su. first_pass always_up \<lparr>BATCH_SIZE = 10, RETRY_COUNT = 0\<rparr> [seed_hook 0] () = Some (f, su)
           \<and> initateProcessing always_up \<lparr>BATCH_SIZE = 10, RETRY_COUNT = 0\<rparr> [seed_hook 0] ()
               = Some [''successRequests'' \<mapsto> su, ''failed'' \<mapsto> f]"
    by (rule initateProcessing_no_retry) simp_all
  then obtain rep where
    "initateProcessing always_up \<lparr>BATCH_SIZE = 10, RETRY_COUNT = 0\<rparr> [seed_hook 0] () = Some rep"
    by blast
  then have 4: "map_option is_Returned
        (trigger always_up \<lparr>BATCH_SIZE = 10, RETRY_COUNT = 0\<rparr> (Inr [seed_hook 0]) ()) = Some True"
    by (simp add: trigger_def)
  show ?thesis
    apply (intro conjI)
       apply (rule 1)
      apply (rule 2)
     apply (rule 3)
    apply (rule 4)
    done
qed

text \<open>
  C7, amended. For a size of 0 or less the chunker never returns on a non-empty array
  and returns no chunk on an empty one. The settings are not validated: with a
  \<^verbatim>\<open>BATCH_SIZE\<close> of 0 or less and at least one hook the trigger never returns; with a
  \<^verbatim>\<open>BATCH_SIZE\<close> of at least 1 and a \<^verbatim>\<open>RETRY_COUNT\<close> of 1 or less (also 0 or
  negative) the trigger makes the first pass only and returns its successes and
  failures.
\<close>

theorem no_validation:
  "(chunkSize \<le> 0 \<longrightarrow> chunkWebHooks items chunkSize = (if items = [] then Some [] else None))
   \<and> (BATCH_SIZE s \<le> 0 \<and> webHooks \<noteq> [] \<longrightarrow>
        initateProcessing net s webHooks postData = None
        \<and> trigger net s (Inr webHooks) postData = None)
   \<and> (1 \<le> BATCH_SIZE s' \<and> RETRY_COUNT s' \<le> 1 \<longrightarrow>
        (\<exists>f su. first_pass net s' webHooks postData = Some (f, su)
           \<and> initateProcessing net s' webHooks postData
               = Some [''successRequests'' \<mapsto> su, ''failed'' \<mapsto> f]))"
proof (intro conjI impI)
  assume "chunkSize \<le> 0"
  then show "chunkWebHooks items chunkSize = (if items = [] then Some [] else None)"
    by (rule chunkWebHooks_nonpos)
next
  assume a: "BATCH_SIZE s \<le> 0 \<and> webHooks \<noteq> []"
  then have "BATCH_SIZE s \<le> 0" "webHooks \<noteq> []" by simp_all
  then show "initateProcessing net s webHooks postData = None"
    by (rule initateProcessing_nonpos)
next
  assume a: "BATCH_SIZE s \<le> 0 \<and> webHooks \<noteq> []"
  then have "BATCH_SIZE s \<le> 0" "webHooks \<noteq> []" by simp_all
  then have "initateProcessing net s webHooks postData = None"
    by (rule initateProcessing_nonpos)
  then show "trigger net s (Inr webHooks) postData = None"
    by (simp add: trigger_def)
next
  assume "1 \<le> BATCH_SIZE s' \<and> RETRY_COUNT s' \<le> 1"
  then have "1 \<le> BATCH_SIZE s'" "RETRY_COUNT s' \<le> 1" by simp_all
  then show "\<exists>f su. first_pass net s' webHooks postData = Some (f, su)
           \<and> initateProcessing net s' webHooks postData
               = Some [''successRequests'' \<mapsto> su, ''failed'' \<mapsto> f]"
    by (rule initateProcessing_no_retry)
qed

theorem no_validation_witness:
  "(0::int) \<le> 0 \<and> chunkWebHooks [1, 2, 3 :: nat] 0 = None
   \<and> BATCH_SIZE \<lparr>BATCH_SIZE = - 5, RETRY_COUNT = 3\<rparr> \<le> 0 \<and> [seed_hook 0, seed_hook 1] \<noteq> []
   \<and> initateProcessing down_then_up \<lparr>BATCH_SIZE = - 5, RETRY_COUNT = 3\<rparr> [seed_hook 0, seed_hook 1] () = None
   \<and> 1 \<le> BATCH_SIZE \<lparr>BATCH_SIZE = 1, RETRY_COUNT = - 2\<rparr>
   \<and> RETRY_COUNT \<lparr>BATCH_SIZE = 1, RETRY_COUNT = - 2\<rparr> \<le> 1
   \<and> (\<exists>f su. first_pass down_then_up \<lparr>BATCH_SIZE = 1, RETRY_COUNT = - 2\<rparr> [seed_hook 0, seed_hook 1] () = Some (f, su)
           \<and> initateProcessing down_then_up \<lparr>BATCH_SIZE = 1, RETRY_COUNT = - 2\<rparr> [seed_hook 0, seed_hook 1] ()
               = Some [''successRequests'' \<mapsto> su, ''failed'' \<mapsto> f])"
proof -
  note inst = no_validation[of 0 "[1, 2, 3 :: nat]" "\<lparr>BATCH_SIZE = - 5, RETRY_COUNT = 3\<rparr>"
      "[seed_hook 0, seed_hook 1]" down_then_up "()" "\<lparr>BATCH_SIZE = 1, RETRY_COUNT = - 2\<rparr>"]
  have 1: "chunkWebHooks [1, 2, 3 :: nat] 0 = None"
    using inst[THEN conjunct1] by simp
  have 2: "initateProcessing down_then_up \<lparr>BATCH_SIZE = - 5, RETRY_COUNT = 3\<rparr> [seed_hook 0, seed_hook 1] () = None"
    using inst[THEN conjunct2, THEN conjunct1] by simp
  have 3: "\<exists>f su. first_pass down_then_up \<lparr>BATCH_SIZE = 1, RETRY_COUNT = - 2\<rparr> [seed_hook 0, seed_hook 1] () = Some (f, su)
           \<and> initateProcessing down_then_up \<lparr>BATCH_SIZE = 1, RETRY_COUNT = - 2\<rparr> [seed_hook 0, seed_hook 1] ()
               = Some [''successRequests'' \<mapsto> su, ''failed'' \<mapsto> f]"
    using inst[THEN conjunct2, THEN conjunct2] by simp
  show ?thesis
    apply (intro conjI)
           apply simp
          apply (rule 1)
         apply simp
        apply simp
       apply (rule 2)
      apply simp
     apply simp
    apply (rule 3)
    done
qed

text \<open>
  C1. Every hook of the trigger should be in exactly one bucket of the report: the
  successes of the first pass, the successes of one retry round, or \<^verbatim>\<open>failed\<close>. The
  source loses hooks. On the service's own settings (\<^verbatim>\<open>BATCH_SIZE\<close> 10,
  \<^verbatim>\<open>RETRY_COUNT\<close> 3): eleven
  hooks, with ids 0 to 10; every post fails in the first pass and succeeds afterwards.
  Round 1 retries the eleven hooks in two chunks and all are delivered, but the
  \<^verbatim>\<open>forEach\<close> assigns \<^verbatim>\<open>retrySuccess1\<close> once per chunk, so the second chunk replaces
  the first: the report holds hook 10 only, and the hooks 0 to 9 are in no bucket at
  all (\<^verbatim>\<open>successRequests\<close> and \<^verbatim>\<open>failed\<close> are empty, \<^verbatim>\<open>retrySuccess2\<close> is absent).
\<close>

theorem retry_bucket_overwritten:
  "map_option (\<lambda>rep. (map_option (map hook_id) (rep ''successRequests''),
                       map_option (map hook_id) (rep (retryKey 1)),
                       map_option (map hook_id) (rep (retryKey 2)),
                       map_option (map hook_id) (rep ''failed'')))
     (initateProcessing down_then_up default_settings (map seed_hook [0..<11]) ())
   = Some (Some [], Some [hook_id (seed_hook 10)], None, Some [])
   \<and> hook_id (seed_hook 0) \<in> set (map hook_id (map seed_hook [0..<11]))
   \<and> hook_id (seed_hook 0) \<notin> set [hook_id (seed_hook 10)]"
  by code_simp

text \<open>
  C3. Each retry round should record its successes under the key of the round. The
  source records those of the round's last chunk. On the service's own settings: twelve hooks, with ids 0 to 11; every post fails in
  the first pass and succeeds afterwards. The attempts of round 1 succeed for all twelve
  hooks, but the bucket of round 1 in the report holds the hooks 10 and 11 only, the
  successes of the last chunk: the round's successes are not what the bucket records.
\<close>

theorem retry_round_successes_not_recorded:
  "map_option (map hook_id \<circ> filter success)
     (round_attempts down_then_up default_settings (map seed_hook [0..<12]) () 1)
     = Some (map hook_id (map seed_hook [0..<12]))
   \<and> map_option (\<lambda>rep. map_option (map hook_id) (success_bucket rep 1))
       (initateProcessing down_then_up default_settings (map seed_hook [0..<12]) ())
     = Some (Some [hook_id (seed_hook 10), hook_id (seed_hook 11)])"
  by code_simp

end
